theory Spec2Isabelle
  imports Complex_Main
begin

section \<open>JavaScript values\<close>

text \<open>
  Request bodies and task configurations are plain JavaScript values. Numbers are modelled
  as exact rationals plus a separate \<open>NaN\<close>; an object is its property list (the first
  binding of a key is the one that is read).
\<close>

datatype jsval =
    JUndefined
  | JNull
  | JBool bool
  | JNum rat
  | JNaN
  | JStr string
  | JObject "(string \<times> jsval) list"
  | JArray "jsval list"

text \<open>Truthiness, as used by \<open>!x\<close>, \<open>x && y\<close> and \<open>x || y\<close>.\<close>

fun truthy :: "jsval \<Rightarrow> bool" where
  "truthy JUndefined = False"
| "truthy JNull = False"
| "truthy (JBool b) = b"
| "truthy (JNum n) = (n \<noteq> 0)"
| "truthy JNaN = False"
| "truthy (JStr s) = (s \<noteq> [])"
| "truthy (JObject kvs) = True"
| "truthy (JArray vs) = True"

fun typeof :: "jsval \<Rightarrow> string" where
  "typeof JUndefined = ''undefined''"
| "typeof JNull = ''object''"
| "typeof (JBool b) = ''boolean''"
| "typeof (JNum n) = ''number''"
| "typeof JNaN = ''number''"
| "typeof (JStr s) = ''string''"
| "typeof (JObject kvs) = ''object''"
| "typeof (JArray vs) = ''object''"

text \<open>Property read \<open>v.k\<close> on a value that is already known to be truthy.\<close>

fun get_prop :: "jsval \<Rightarrow> string \<Rightarrow> jsval" where
  "get_prop (JObject kvs) k = (case map_of kvs k of None \<Rightarrow> JUndefined | Some v \<Rightarrow> v)"
| "get_prop v k = JUndefined"

text \<open>\<open>v <= 0\<close> for a value whose \<open>typeof\<close> is \<open>number\<close> (any comparison with NaN is false).\<close>

fun num_le_zero :: "jsval \<Rightarrow> bool" where
  "num_le_zero (JNum n) = (n \<le> 0)"
| "num_le_zero v = False"

datatype js_error = Error string

section \<open>The JavaScript \<open>Map\<close>: keyed, in insertion order\<close>

fun Map_set :: "'k \<Rightarrow> 'v \<Rightarrow> ('k \<times> 'v) list \<Rightarrow> ('k \<times> 'v) list" where
  "Map_set k v [] = [(k, v)]"
| "Map_set k v ((k', v') # m) = (if k = k' then (k, v) # m else (k', v') # Map_set k v m)"

definition Map_delete :: "'k \<Rightarrow> ('k \<times> 'v) list \<Rightarrow> ('k \<times> 'v) list" where
  "Map_delete k m = filter (\<lambda>kv. fst kv \<noteq> k) m"

definition Map_get :: "('k \<times> 'v) list \<Rightarrow> 'k \<Rightarrow> 'v option" where
  "Map_get m k = map_of m k"

definition Map_has :: "('k \<times> 'v) list \<Rightarrow> 'k \<Rightarrow> bool" where
  "Map_has m k = (map_of m k \<noteq> None)"

definition Map_size :: "('k \<times> 'v) list \<Rightarrow> int" where
  "Map_size m = int (length m)"

section \<open>Task records (the \<open>Task\<close> class)\<close>

datatype task_status = Pending | Processing | Completed | Failed

text \<open>
  Instants are milliseconds since the epoch; \<open>None\<close> is JavaScript's \<open>null\<close>. Every
  call reads the clock as the one instant \<open>now\<close> it is given.
\<close>

record task =
  taskId :: string
  status :: task_status
  config :: jsval
  imageUrl :: "string option"
  fileName :: "string option"
  createdAt :: int
  startedAt :: "int option"
  completedAt :: "int option"
  error :: "string option"
  retryCount :: int

text \<open>The constructor; \<open>tid\<close> is what \<open>uuidv4()\<close> returned and \<open>now\<close> the clock.\<close>

definition Task_new :: "string \<Rightarrow> int \<Rightarrow> jsval \<Rightarrow> task" where
  "Task_new tid now cfg =
     \<lparr> taskId = tid, status = Pending, config = cfg, imageUrl = None, fileName = None,
       createdAt = now, startedAt = None, completedAt = None, error = None, retryCount = 0 \<rparr>"

definition Task_start :: "int \<Rightarrow> task \<Rightarrow> task" where
  "Task_start now t = t\<lparr> status := Processing, startedAt := Some now \<rparr>"

definition Task_complete :: "int \<Rightarrow> string \<Rightarrow> string option \<Rightarrow> task \<Rightarrow> task" where
  "Task_complete now url fname t =
     t\<lparr> status := Completed, imageUrl := Some url, fileName := fname,
        completedAt := Some now, error := None \<rparr>"

definition Task_fail :: "int \<Rightarrow> string \<Rightarrow> task \<Rightarrow> task" where
  "Task_fail now err t = t\<lparr> status := Failed, error := Some err, completedAt := Some now \<rparr>"

definition Task_retry :: "task \<Rightarrow> task" where
  "Task_retry t = t\<lparr> retryCount := retryCount t + 1, status := Pending, error := None \<rparr>"

text \<open>
  \<open>isTimeout\<close> compares \<open>(now - startedAt) / 1000\<close> with the limit in seconds and
  \<open>isExpired\<close> compares \<open>(now - createdAt) / 86400000\<close> with the limit in days; both
  are written here multiplied out, over the integers.
\<close>

definition Task_isTimeout :: "int \<Rightarrow> int \<Rightarrow> task \<Rightarrow> bool" where
  "Task_isTimeout now timeoutSeconds t =
     (if status t \<noteq> Processing then False
      else case startedAt t of
             None \<Rightarrow> False
           | Some s \<Rightarrow> now - s > timeoutSeconds * 1000)"

definition Task_isExpired :: "int \<Rightarrow> int \<Rightarrow> task \<Rightarrow> bool" where
  "Task_isExpired now retentionDays t = (now - createdAt t > retentionDays * (1000 * 60 * 60 * 24))"

definition Task_getProcessingTime :: "task \<Rightarrow> int option" where
  "Task_getProcessingTime t =
     (case startedAt t of
        None \<Rightarrow> None
      | Some s \<Rightarrow> (case completedAt t of None \<Rightarrow> None | Some c \<Rightarrow> Some (c - s)))"

section \<open>The task queue (the \<open>TaskQueue\<close> class)\<close>

record queue_options =
  maxConcurrent :: int
  taskTimeout :: int
  retryAttempts :: int

record queue_stats =
  totalProcessed :: nat
  totalFailed :: nat
  averageProcessingTime :: rat
  processingTimes :: "int list"

text \<open>
  Listeners run synchronously inside \<open>emit\<close>; the ones the task manager installs only log,
  count, or start an asynchronous job whose calls back into the queue happen in a later
  turn of the event loop. An emission is therefore an entry appended to a history, carrying
  the record as it was at that moment.
\<close>

datatype event =
    TaskEnqueued task
  | TaskStarted task
  | TaskCompleted task
  | TaskFailed task
  | TaskRetry task
  | TaskTimeout "task option"
  | TasksCleanedUp "task list"
  | QueuePaused
  | QueueResumed

record task_queue =
  options :: queue_options
  pendingQueue :: "task list"
  processingTasks :: "(string \<times> task) list"
  completedTasks :: "(string \<times> task) list"
  stats :: queue_stats
  timeoutCheckInterval :: bool
  emitted :: "event list"

text \<open>
  The constructor: each option defaults when the caller did not give it
  (\<open>{maxConcurrent: options.maxConcurrent || 10, ..., ...options}\<close>: a given value,
  zero included, is kept by the spread).
\<close>

record raw_options =
  given_maxConcurrent :: "int option"
  given_taskTimeout :: "int option"
  given_retryAttempts :: "int option"

definition TaskQueue_new :: "raw_options \<Rightarrow> task_queue" where
  "TaskQueue_new raw =
     \<lparr> options = \<lparr> maxConcurrent = (case given_maxConcurrent raw of None \<Rightarrow> 10 | Some v \<Rightarrow> v),
                     taskTimeout = (case given_taskTimeout raw of None \<Rightarrow> 300 | Some v \<Rightarrow> v),
                     retryAttempts = (case given_retryAttempts raw of None \<Rightarrow> 3 | Some v \<Rightarrow> v) \<rparr>,
       pendingQueue = [],
       processingTasks = [],
       completedTasks = [],
       stats = \<lparr> totalProcessed = 0, totalFailed = 0, averageProcessingTime = 0,
                   processingTimes = [] \<rparr>,
       timeoutCheckInterval = True,
       emitted = [] \<rparr>"

definition emit :: "event \<Rightarrow> task_queue \<Rightarrow> task_queue" where
  "emit e q = q\<lparr> emitted := emitted q @ [e] \<rparr>"

definition getTask :: "task_queue \<Rightarrow> string \<Rightarrow> task option" where
  "getTask q tid =
     (if Map_has (processingTasks q) tid then Map_get (processingTasks q) tid
      else if Map_has (completedTasks q) tid then Map_get (completedTasks q) tid
      else find (\<lambda>t. taskId t = tid) (pendingQueue q))"

definition hasTask :: "task_queue \<Rightarrow> string \<Rightarrow> bool" where
  "hasTask q tid = (getTask q tid \<noteq> None)"

definition startProcessing :: "int \<Rightarrow> task \<Rightarrow> task_queue \<Rightarrow> task_queue" where
  "startProcessing now t q =
     (let t' = Task_start now t
      in emit (TaskStarted t')
           (q\<lparr> processingTasks := Map_set (taskId t') t' (processingTasks q) \<rparr>))"

definition processNext :: "int \<Rightarrow> task_queue \<Rightarrow> task_queue" where
  "processNext now q =
     (if Map_size (processingTasks q) \<ge> maxConcurrent (options q) then q
      else case pendingQueue q of
             [] \<Rightarrow> q
           | t # rest \<Rightarrow> startProcessing now t (q\<lparr> pendingQueue := rest \<rparr>))"

text \<open>
  \<open>enqueue\<close> throws on a task without an id, answers \<open>false\<close> for an id the queue already
  holds, and otherwise appends, emits and tries one admission. A function that can throw
  returns the exception (if any) together with the state it leaves behind.
\<close>

definition enqueue :: "int \<Rightarrow> task \<Rightarrow> task_queue \<Rightarrow> (js_error + bool) \<times> task_queue" where
  "enqueue now t q =
     (if taskId t = [] then (Inl (Error ''Invalid task object''), q)
      else if hasTask q (taskId t) then (Inr False, q)
      else (Inr True,
            processNext now (emit (TaskEnqueued t) (q\<lparr> pendingQueue := pendingQueue q @ [t] \<rparr>))))"

definition updateStats :: "task \<Rightarrow> task_queue \<Rightarrow> task_queue" where
  "updateStats t q =
     (let s = (stats q)\<lparr> totalProcessed := totalProcessed (stats q) + 1 \<rparr>
      in case Task_getProcessingTime t of
           None \<Rightarrow> q\<lparr> stats := s \<rparr>
         | Some pt \<Rightarrow>
             (let times = processingTimes s @ [pt];
                  times' = (if length times > 1000 then tl times else times)
              in q\<lparr> stats := s\<lparr> processingTimes := times',
                               averageProcessingTime :=
                                 of_int (sum_list times') / of_nat (length times') \<rparr> \<rparr>))"

definition not_found :: "string \<Rightarrow> js_error" where
  "not_found tid = Error (''Task '' @ tid @ '' not found in processing queue'')"

definition completeTask ::
  "int \<Rightarrow> string \<Rightarrow> string \<Rightarrow> string option \<Rightarrow> task_queue \<Rightarrow> js_error option \<times> task_queue" where
  "completeTask now tid url fname q =
     (case Map_get (processingTasks q) tid of
        None \<Rightarrow> (Some (not_found tid), q)
      | Some t \<Rightarrow>
          (let t' = Task_complete now url fname t;
               q1 = q\<lparr> processingTasks := Map_delete tid (processingTasks q),
                       completedTasks := Map_set tid t' (completedTasks q) \<rparr>;
               q2 = updateStats t' q1;
               q3 = emit (TaskCompleted t') q2
           in (None, processNext now q3)))"

text \<open>The two branches of \<open>failTask\<close>, each up to and including its emission.\<close>

definition retryBranch :: "string \<Rightarrow> task \<Rightarrow> task_queue \<Rightarrow> task_queue" where
  "retryBranch tid t q =
     (let t' = Task_retry t
      in emit (TaskRetry t')
           (q\<lparr> processingTasks := Map_delete tid (processingTasks q),
               pendingQueue := t' # pendingQueue q \<rparr>))"

definition failBranch :: "int \<Rightarrow> string \<Rightarrow> string \<Rightarrow> task \<Rightarrow> task_queue \<Rightarrow> task_queue" where
  "failBranch now tid err t q =
     (let t' = Task_fail now err t;
          q1 = q\<lparr> processingTasks := Map_delete tid (processingTasks q),
                  completedTasks := Map_set tid t' (completedTasks q) \<rparr>;
          q2 = q1\<lparr> stats := (stats q1)\<lparr> totalFailed := totalFailed (stats q1) + 1 \<rparr> \<rparr>
      in emit (TaskFailed t') q2)"

definition failTask ::
  "int \<Rightarrow> string \<Rightarrow> string \<Rightarrow> task_queue \<Rightarrow> js_error option \<times> task_queue" where
  "failTask now tid err q =
     (case Map_get (processingTasks q) tid of
        None \<Rightarrow> (Some (not_found tid), q)
      | Some t \<Rightarrow>
          (if retryCount t < retryAttempts (options q)
           then (None, processNext now (retryBranch tid t q))
           else (None, processNext now (failBranch now tid err t q))))"

text \<open>
  \<open>cleanupExpiredTasks\<close> walks the completed archive in insertion order, deleting each
  expired entry by key and collecting its record.
\<close>

fun cleanupLoop ::
  "int \<Rightarrow> int \<Rightarrow> (string \<times> task) list \<Rightarrow> (string \<times> task) list \<times> task list
     \<Rightarrow> (string \<times> task) list \<times> task list" where
  "cleanupLoop now days [] acc = acc"
| "cleanupLoop now days ((tid, t) # entries) (m, expired) =
     (if Task_isExpired now days t
      then cleanupLoop now days entries (Map_delete tid m, expired @ [t])
      else cleanupLoop now days entries (m, expired))"

definition cleanupExpiredTasks :: "int \<Rightarrow> int \<Rightarrow> task_queue \<Rightarrow> task list \<times> task_queue" where
  "cleanupExpiredTasks now retentionDays q =
     (case cleanupLoop now retentionDays (completedTasks q) (completedTasks q, []) of
        (m, expiredTasks) \<Rightarrow>
          (let q1 = q\<lparr> completedTasks := m \<rparr>
           in (expiredTasks,
               if length expiredTasks > 0 then emit (TasksCleanedUp expiredTasks) q1 else q1)))"

text \<open>
  \<open>checkTimeouts\<close> first collects the ids of the timed-out in-flight records, then for each
  emits \<open>taskTimeout\<close> and calls \<open>failTask\<close>; an exception from \<open>failTask\<close> would end the
  \<open>forEach\<close>.
\<close>

fun failTimeouts :: "int \<Rightarrow> string list \<Rightarrow> task_queue \<Rightarrow> js_error option \<times> task_queue" where
  "failTimeouts now [] q = (None, q)"
| "failTimeouts now (tid # tids) q =
     (case failTask now tid ''Task timeout''
             (emit (TaskTimeout (Map_get (processingTasks q) tid)) q) of
        (Some e, q') \<Rightarrow> (Some e, q')
      | (None, q') \<Rightarrow> failTimeouts now tids q')"

definition timeoutTasks :: "int \<Rightarrow> task_queue \<Rightarrow> string list" where
  "timeoutTasks now q =
     map fst (filter (\<lambda>kv. Task_isTimeout now (taskTimeout (options q)) (snd kv))
                (processingTasks q))"

definition checkTimeouts :: "int \<Rightarrow> task_queue \<Rightarrow> js_error option \<times> task_queue" where
  "checkTimeouts now q = failTimeouts now (timeoutTasks now q) q"

definition pause :: "task_queue \<Rightarrow> task_queue" where
  "pause q = emit QueuePaused (q\<lparr> timeoutCheckInterval := False \<rparr>)"

definition resume :: "int \<Rightarrow> task_queue \<Rightarrow> task_queue" where
  "resume now q = emit QueueResumed (processNext now (q\<lparr> timeoutCheckInterval := True \<rparr>))"

text \<open>
  A caller's view of the queue over time: a sequence of calls, each at its own instant.
  A call that throws leaves the state where the exception left it. \<open>CheckTimeouts\<close> is
  one firing of the recurring sweep (or a direct call). \<open>clear\<close> and \<open>destroy\<close>, which
  empty the queue and reset its statistics, end a run and are not part of it.
\<close>

datatype queue_op =
    Enqueue task
  | ProcessNext
  | CompleteTask string string "string option"
  | FailTask string string
  | CheckTimeouts
  | CleanupExpiredTasks int
  | Pause
  | Resume

fun apply_op :: "int \<times> queue_op \<Rightarrow> task_queue \<Rightarrow> task_queue" where
  "apply_op (now, Enqueue t) q = snd (enqueue now t q)"
| "apply_op (now, ProcessNext) q = processNext now q"
| "apply_op (now, CompleteTask tid url fname) q = snd (completeTask now tid url fname q)"
| "apply_op (now, FailTask tid err) q = snd (failTask now tid err q)"
| "apply_op (now, CheckTimeouts) q = snd (checkTimeouts now q)"
| "apply_op (now, CleanupExpiredTasks days) q = snd (cleanupExpiredTasks now days q)"
| "apply_op (now, Pause) q = pause q"
| "apply_op (now, Resume) q = resume now q"

definition run :: "(int \<times> queue_op) list \<Rightarrow> task_queue \<Rightarrow> task_queue" where
  "run ops q = fold apply_op ops q"

record queue_status =
  pendingTasks :: int
  processingTasksCount :: int
  completedTasksCount :: int
  status_totalProcessed :: nat
  status_totalFailed :: nat
  status_averageProcessingTime :: rat
  status_maxConcurrent :: int

definition getQueueStatus :: "task_queue \<Rightarrow> queue_status" where
  "getQueueStatus q =
     \<lparr> pendingTasks = int (length (pendingQueue q)),
       processingTasksCount = Map_size (processingTasks q),
       completedTasksCount = Map_size (completedTasks q),
       status_totalProcessed = totalProcessed (stats q),
       status_totalFailed = totalFailed (stats q),
       status_averageProcessingTime = averageProcessingTime (stats q),
       status_maxConcurrent = maxConcurrent (options q) \<rparr>"

section \<open>JavaScript numbers (IEEE 754 binary64)\<close>

text \<open>
  A finite JavaScript number is modelled by the rational it denotes, and the result of an
  arithmetic operation is the exact result rounded to the nearest binary64 value, ties to
  the even significand. \<open>bit_length n\<close> is the number of binary digits of a positive
  integer, \<open>ilog2 x\<close> the exponent \<open>e\<close> with \<open>2^e \<le> x < 2^(e+1)\<close>, and \<open>to_double x\<close> scales
  the magnitude of \<open>x\<close> into \<open>[2^52, 2^53)\<close>, rounds it to an integer (53 significant bits)
  and scales back. Overflow to \<open>Infinity\<close>, subnormal results, \<open>NaN\<close> and the sign of zero
  are outside this model; processing times in milliseconds are far from those ranges.
\<close>

function bit_length :: "int \<Rightarrow> nat" where
  "bit_length n = (if n \<le> 0 then 0 else Suc (bit_length (n div 2)))"
  by pat_completeness auto

termination
  by (relation "measure nat") auto

declare bit_length.simps [simp del]

definition pow2 :: "int \<Rightarrow> rat" where
  "pow2 e = (if 0 \<le> e then 2 ^ nat e else 1 / 2 ^ nat (- e))"

definition ilog2 :: "rat \<Rightarrow> int" where
  "ilog2 x =
     (if 1 \<le> x then int (bit_length \<lfloor>x\<rfloor>) - 1
      else - int (bit_length (\<lceil>1 / x\<rceil> - 1)))"

definition round_half_even :: "rat \<Rightarrow> int" where
  "round_half_even r =
     (let f = \<lfloor>r\<rfloor>; d = r - of_int f
      in if d < 1 / 2 then f else if 1 / 2 < d then f + 1 else if even f then f else f + 1)"

definition to_double :: "rat \<Rightarrow> rat" where
  "to_double x =
     (if x = 0 then 0
      else (let e = ilog2 \<bar>x\<bar> - 52
            in sgn x * of_int (round_half_even (\<bar>x\<bar> / pow2 e)) * pow2 e))"

text \<open>The operators \<open>a + b\<close>, \<open>a * b\<close> and \<open>a / b\<close> on numbers.\<close>

definition js_add :: "rat \<Rightarrow> rat \<Rightarrow> rat" where
  "js_add a b = to_double (a + b)"

definition js_mul :: "rat \<Rightarrow> rat \<Rightarrow> rat" where
  "js_mul a b = to_double (a * b)"

definition js_div :: "rat \<Rightarrow> rat \<Rightarrow> rat" where
  "js_div a b = to_double (a / b)"

section \<open>The metrics collector (the \<open>MetricsService\<close> class)\<close>

record task_counters =
  created :: nat
  completed :: nat
  failed :: nat
  retried :: nat
  timeout :: nat

text \<open>
  Of the collector's state, the task counters and the processing-time block. Samples and
  statistics are JavaScript numbers. A percentile is whatever the array read returned, so
  it can be \<open>undefined\<close> (\<open>None\<close>).
\<close>

record processing_time_stats =
  samples :: "rat list"
  min_time :: rat
  max_time :: rat
  avg :: rat
  p50 :: "rat option"
  p95 :: "rat option"
  p99 :: "rat option"

record metrics =
  tasks :: task_counters
  processingTimeStats :: processing_time_stats

definition MetricsService_new :: metrics where
  "MetricsService_new =
     \<lparr> tasks = \<lparr> created = 0, completed = 0, failed = 0, retried = 0, timeout = 0 \<rparr>,
       processingTimeStats = \<lparr> samples = [], min_time = 0, max_time = 0, avg = 0,
                               p50 = Some 0, p95 = Some 0, p99 = Some 0 \<rparr> \<rparr>"

text \<open>An array read \<open>xs[i]\<close>: \<open>undefined\<close> outside the array.\<close>

definition js_index :: "'a list \<Rightarrow> int \<Rightarrow> 'a option" where
  "js_index xs i = (if 0 \<le> i \<and> i < int (length xs) then Some (xs ! nat i) else None)"

text \<open>
  \<open>percentile\<close> is the double the caller passes. The product \<open>sortedArray.length * percentile\<close>
  is rounded; \<open>Math.ceil\<close> is exact, and so is the subtraction of one wherever the result can
  index an array (beyond \<open>2^53\<close> either value is past the end of the array, and a negative
  one is replaced by 0).
\<close>

definition getPercentile :: "rat list \<Rightarrow> rat \<Rightarrow> rat option" where
  "getPercentile sortedArray percentile =
     (if length sortedArray = 0 then Some 0
      else (let index = \<lceil>js_mul (of_nat (length sortedArray)) percentile\<rceil> - 1
            in js_index sortedArray (max 0 index)))"

text \<open>
  The comparator \<open>(a, b) => a - b\<close> orders finite numbers by value (a difference of two
  doubles is zero only if they are equal), so the copy is sorted ascending. The mean is
  \<open>samples.reduce((a, b) => a + b, 0) / samples.length\<close>: a left-to-right sum in insertion
  order, rounded at every addition, then a rounded quotient. The literals \<open>0.5\<close>, \<open>0.95\<close> and
  \<open>0.99\<close> denote the doubles nearest to them.
\<close>

definition updateProcessingTimeStats :: "metrics \<Rightarrow> metrics" where
  "updateProcessingTimeStats m =
     (let pts = processingTimeStats m; smp = samples pts
      in if length smp = 0 then m
         else (let sorted = sort smp
               in m\<lparr> processingTimeStats :=
                       pts\<lparr> min_time := hd sorted,
                            max_time := last sorted,
                            avg := js_div (foldl js_add 0 smp) (of_nat (length smp)),
                            p50 := getPercentile sorted (to_double (1 / 2)),
                            p95 := getPercentile sorted (to_double (95 / 100)),
                            p99 := getPercentile sorted (to_double (99 / 100)) \<rparr> \<rparr>))"

definition addProcessingTime :: "rat \<Rightarrow> metrics \<Rightarrow> metrics" where
  "addProcessingTime time m =
     (let pts = processingTimeStats m;
          pushed = samples pts @ [time];
          kept = (if length pushed > 1000 then tl pushed else pushed)
      in updateProcessingTimeStats (m\<lparr> processingTimeStats := pts\<lparr> samples := kept \<rparr> \<rparr>))"

definition recordTaskCreated :: "metrics \<Rightarrow> metrics" where
  "recordTaskCreated m = m\<lparr> tasks := (tasks m)\<lparr> created := created (tasks m) + 1 \<rparr> \<rparr>"

definition recordTaskCompleted :: "int option \<Rightarrow> metrics \<Rightarrow> metrics" where
  "recordTaskCompleted processingTime m =
     (let m1 = m\<lparr> tasks := (tasks m)\<lparr> completed := completed (tasks m) + 1 \<rparr> \<rparr>
      in case processingTime of
           None \<Rightarrow> m1
         | Some pt \<Rightarrow> if pt \<noteq> 0 \<and> pt > 0 then addProcessingTime (of_int pt) m1 else m1)"

section \<open>Submission (\<open>Task.validateConfig\<close> and \<open>TaskManager.createTask\<close>)\<close>

definition supportedTypes :: "jsval list" where
  "supportedTypes = [JStr ''png'', JStr ''jpeg'', JStr ''svg'', JStr ''pdf'']"

definition optionErrors :: "jsval \<Rightarrow> string list" where
  "optionErrors cfg =
     (if \<not> truthy (get_prop cfg ''option'') \<or> typeof (get_prop cfg ''option'') \<noteq> ''object''
      then [''Config.option is required and must be an object''] else [])"

definition widthErrors :: "jsval \<Rightarrow> string list" where
  "widthErrors cfg =
     (if truthy (get_prop cfg ''width'')
         \<and> (typeof (get_prop cfg ''width'') \<noteq> ''number'' \<or> num_le_zero (get_prop cfg ''width''))
      then [''Config.width must be a positive number''] else [])"

definition heightErrors :: "jsval \<Rightarrow> string list" where
  "heightErrors cfg =
     (if truthy (get_prop cfg ''height'')
         \<and> (typeof (get_prop cfg ''height'') \<noteq> ''number'' \<or> num_le_zero (get_prop cfg ''height''))
      then [''Config.height must be a positive number''] else [])"

definition typeErrors :: "jsval \<Rightarrow> string list" where
  "typeErrors cfg =
     (if truthy (get_prop cfg ''type'') \<and> get_prop cfg ''type'' \<notin> set supportedTypes
      then [''Config.type must be one of: png, jpeg, svg, pdf''] else [])"

record validation =
  valid :: bool
  errors :: "string list"

definition validateConfig :: "jsval \<Rightarrow> validation" where
  "validateConfig cfg =
     (if \<not> truthy cfg \<or> typeof cfg \<noteq> ''object''
      then \<lparr> valid = False, errors = [''Config must be an object''] \<rparr>
      else (let errs = optionErrors cfg @ widthErrors cfg @ heightErrors cfg @ typeErrors cfg
            in \<lparr> valid = (length errs = 0), errors = errs \<rparr>))"

fun join :: "string \<Rightarrow> string list \<Rightarrow> string" where
  "join sep [] = []"
| "join sep [x] = x"
| "join sep (x # y # ys) = x @ sep @ join sep (y # ys)"

record task_manager =
  taskQueue :: task_queue
  metricsService :: metrics

text \<open>
  \<open>createTask\<close> returns the task object it enqueued. The queue mutates that same object
  when it admits it, so the caller sees the record as the queue holds it on return.
\<close>

definition held :: "task_queue \<Rightarrow> task \<Rightarrow> task" where
  "held q t = (case getTask q (taskId t) of None \<Rightarrow> t | Some t' \<Rightarrow> t')"

definition createTask ::
  "string \<Rightarrow> int \<Rightarrow> jsval \<Rightarrow> task_manager \<Rightarrow> (js_error + task) \<times> task_manager" where
  "createTask uuid now cfg tm =
     (let v = validateConfig cfg
      in if \<not> valid v
         then (Inl (Error (''Invalid task config: '' @ join '', '' (errors v))), tm)
         else (let t = Task_new uuid now cfg
               in case enqueue now t (taskQueue tm) of
                    (Inl e, q') \<Rightarrow> (Inl e, tm\<lparr> taskQueue := q' \<rparr>)
                  | (Inr success, q') \<Rightarrow>
                      if \<not> success
                      then (Inl (Error ''Failed to enqueue task''), tm\<lparr> taskQueue := q' \<rparr>)
                      else (Inr (held q' t),
                            tm\<lparr> taskQueue := q',
                                metricsService := recordTaskCreated (metricsService tm) \<rparr>)))"

text \<open>
  The submission rule in the specification's words: a configuration is in violation when
  its \<open>option\<close> is missing or not an object, or \<open>width\<close> or \<open>height\<close> is present and not a
  positive number, or \<open>type\<close> is present and not one of the four formats.
\<close>

fun is_object :: "jsval \<Rightarrow> bool" where
  "is_object (JObject kvs) = True"
| "is_object (JArray vs) = True"
| "is_object v = False"

fun positive_number :: "jsval \<Rightarrow> bool" where
  "positive_number (JNum n) = (n > 0)"
| "positive_number v = False"

definition present :: "jsval \<Rightarrow> string \<Rightarrow> bool" where
  "present cfg k = (get_prop cfg k \<noteq> JUndefined)"

definition spec_violation :: "jsval \<Rightarrow> bool" where
  "spec_violation cfg =
     (\<not> is_object (get_prop cfg ''option'')
      \<or> (present cfg ''width'' \<and> \<not> positive_number (get_prop cfg ''width''))
      \<or> (present cfg ''height'' \<and> \<not> positive_number (get_prop cfg ''height''))
      \<or> (present cfg ''type'' \<and> get_prop cfg ''type'' \<notin> set supportedTypes))"

text \<open>What the validator tests instead of presence: truthiness.\<close>

definition code_violation :: "jsval \<Rightarrow> bool" where
  "code_violation cfg =
     (\<not> is_object (get_prop cfg ''option'')
      \<or> (truthy (get_prop cfg ''width'') \<and> \<not> positive_number (get_prop cfg ''width''))
      \<or> (truthy (get_prop cfg ''height'') \<and> \<not> positive_number (get_prop cfg ''height''))
      \<or> (truthy (get_prop cfg ''type'') \<and> get_prop cfg ''type'' \<notin> set supportedTypes))"

section \<open>The cleanup scheduler (the \<open>CleanupService\<close> class)\<close>

record cleanup_result =
  cleanedTasks :: nat
  deletedFiles :: nat
  cleanupErrors :: "(string \<times> string) list"

record cleanup_stats =
  totalRuns :: nat
  totalTasksCleaned :: nat
  totalFilesCleaned :: nat
  totalErrors :: nat
  lastRunDuration :: int

record cleanup_service =
  maxRetries :: int
  isRunning :: bool
  lastCleanupTime :: "int option"
  cleanupStats :: cleanup_stats

text \<open>
  Of the scheduler's state, the retry bound, the running flag and the statistics; arming
  the timer for the next day is left out. The manager's cleanup is a collaborator here:
  \<open>cleanup k\<close> is what its \<open>k\<close>-th call of the cycle does, throw (\<open>Inl\<close>) or return a
  result. \<open>lastError\<close> starts out \<open>undefined\<close> (\<open>None\<close>). The waits between attempts
  only let time pass.
\<close>

function executeCleanupLoop ::
  "(int \<Rightarrow> js_error + cleanup_result) \<Rightarrow> int \<Rightarrow> int \<Rightarrow> js_error option
     \<Rightarrow> js_error option + cleanup_result" where
  "executeCleanupLoop cleanup maxR attempt lastError =
     (if attempt \<le> maxR
      then (case cleanup attempt of
              Inr r \<Rightarrow> Inr r
            | Inl e \<Rightarrow> executeCleanupLoop cleanup maxR (attempt + 1) (Some e))
      else Inl lastError)"
  by pat_completeness auto
termination
  by (relation "measure (\<lambda>(c, m, a, l). nat (m + 1 - a))") auto

definition executeCleanupWithRetry ::
  "(int \<Rightarrow> js_error + cleanup_result) \<Rightarrow> cleanup_service \<Rightarrow> js_error option + cleanup_result" where
  "executeCleanupWithRetry cleanup cs = executeCleanupLoop cleanup (maxRetries cs) 1 None"

definition CleanupService_updateStats ::
  "cleanup_result \<Rightarrow> int \<Rightarrow> int \<Rightarrow> cleanup_service \<Rightarrow> cleanup_service" where
  "CleanupService_updateStats r duration now cs =
     cs\<lparr> cleanupStats :=
           (cleanupStats cs)
             \<lparr> totalRuns := totalRuns (cleanupStats cs) + 1,
               totalTasksCleaned := totalTasksCleaned (cleanupStats cs) + cleanedTasks r,
               totalFilesCleaned := totalFilesCleaned (cleanupStats cs) + deletedFiles r,
               totalErrors := totalErrors (cleanupStats cs) + length (cleanupErrors r),
               lastRunDuration := duration \<rparr>,
         lastCleanupTime := Some now \<rparr>"

text \<open>
  One scheduled cycle, started at \<open>startTime\<close> and ending at \<open>now\<close>. The \<open>catch\<close> block
  reads \<open>error.message\<close> before it counts the error, so a thrown \<open>undefined\<close> (no attempt
  was made at all) escapes as a \<open>TypeError\<close> and nothing is counted.
\<close>

definition runCleanupCycle ::
  "(int \<Rightarrow> js_error + cleanup_result) \<Rightarrow> int \<Rightarrow> int \<Rightarrow> cleanup_service
     \<Rightarrow> js_error option \<times> cleanup_service" where
  "runCleanupCycle cleanup startTime now cs =
     (case executeCleanupWithRetry cleanup cs of
        Inr r \<Rightarrow> (None, CleanupService_updateStats r (now - startTime) now cs)
      | Inl None \<Rightarrow>
          (Some (Error ''Cannot read properties of undefined (reading 'message')''), cs)
      | Inl (Some e) \<Rightarrow>
          (None, cs\<lparr> cleanupStats :=
                       (cleanupStats cs)\<lparr> totalErrors := totalErrors (cleanupStats cs) + 1 \<rparr> \<rparr>))"

section \<open>The health endpoint (\<open>getSystemHealth\<close>)\<close>

record health_response =
  statusCode :: int
  code :: int
  msg :: string
  data_status :: string
  check_queue :: string
  check_memory :: string
  check_oss :: string
  oss_error :: "string option"

text \<open>
  The response built inside the handler's \<open>try\<close> block (its \<open>catch\<close> answers 503 when
  building the report throws). \<open>oss\<close> is \<open>None\<close> when no object store is configured, and
  otherwise what \<open>testConnection\<close> did: return (\<open>None\<close>) or throw an error with that
  message. \<open>heapUsed\<close> is the reading of \<open>process.memoryUsage().heapUsed\<close>.
\<close>

definition memoryThreshold :: int where
  "memoryThreshold = 500 * 1024 * 1024"

definition getSystemHealth :: "task_queue \<Rightarrow> int \<Rightarrow> string option option \<Rightarrow> health_response" where
  "getSystemHealth q heapUsed oss =
     (let statistics = getQueueStatus q;
          ossStatus = (case oss of None \<Rightarrow> ''not_configured''
                       | Some None \<Rightarrow> ''healthy''
                       | Some (Some m) \<Rightarrow> ''error'');
          ossError = (case oss of Some (Some m) \<Rightarrow> Some m | _ \<Rightarrow> None);
          isHealthy = (pendingTasks statistics < 1000);
          sc = (if isHealthy then 200 else 503)
      in \<lparr> statusCode = sc,
           code = sc,
           msg = (if isHealthy then ''System is healthy'' else ''System has issues''),
           data_status = (if isHealthy then ''ok'' else ''degraded''),
           check_queue = (if pendingTasks statistics < 1000 then ''ok'' else ''warning''),
           check_memory = (if heapUsed < memoryThreshold then ''ok'' else ''warning''),
           check_oss = ossStatus,
           oss_error = ossError \<rparr>)"

text \<open>The health rule in the specification's words.\<close>

definition spec_degraded :: "task_queue \<Rightarrow> int \<Rightarrow> bool" where
  "spec_degraded q heapUsed = (int (length (pendingQueue q)) > 1000 \<or> \<not> heapUsed < memoryThreshold)"

section \<open>Invariants and observations of a run\<close>

text \<open>The concurrency bound as a predicate on queue states.\<close>

definition within_limit :: "task_queue \<Rightarrow> bool" where
  "within_limit q = (Map_size (processingTasks q) \<le> maxConcurrent (options q))"

text \<open>Every record the queue holds, in any of its three containers.\<close>

definition all_tasks :: "task_queue \<Rightarrow> task list" where
  "all_tasks q = pendingQueue q @ map snd (processingTasks q) @ map snd (completedTasks q)"

definition retry_bounded :: "task_queue \<Rightarrow> bool" where
  "retry_bounded q = list_all (\<lambda>t. retryCount t \<le> retryAttempts (options q)) (all_tasks q)"

text \<open>The tasks a sequence of calls submits.\<close>

fun enqueued :: "(int \<times> queue_op) list \<Rightarrow> task list" where
  "enqueued [] = []"
| "enqueued ((now, Enqueue t) # ops) = t # enqueued ops"
| "enqueued (other # ops) = enqueued ops"

text \<open>
  The in-flight map is well formed when its keys are distinct and every entry is keyed by
  its own id, is in state processing and has a start instant.
\<close>

definition inflight_wf :: "task_queue \<Rightarrow> bool" where
  "inflight_wf q =
     (distinct (map fst (processingTasks q))
      \<and> list_all (\<lambda>kv. taskId (snd kv) = fst kv \<and> status (snd kv) = Processing
                          \<and> startedAt (snd kv) \<noteq> None) (processingTasks q))"

text \<open>Counting the history: completions, final failures and retention evictions.\<close>

fun count_completed :: "event list \<Rightarrow> nat" where
  "count_completed [] = 0"
| "count_completed (TaskCompleted t # es) = Suc (count_completed es)"
| "count_completed (e # es) = count_completed es"

fun count_failed :: "event list \<Rightarrow> nat" where
  "count_failed [] = 0"
| "count_failed (TaskFailed t # es) = Suc (count_failed es)"
| "count_failed (e # es) = count_failed es"

fun count_evicted :: "event list \<Rightarrow> nat" where
  "count_evicted [] = 0"
| "count_evicted (TasksCleanedUp ts # es) = length ts + count_evicted es"
| "count_evicted (e # es) = count_evicted es"

text \<open>One step of the timeout sweep's \<open>forEach\<close>, with the exception dropped.\<close>

definition timeoutStep :: "int \<Rightarrow> string \<Rightarrow> task_queue \<Rightarrow> task_queue" where
  "timeoutStep now tid q =
     snd (failTask now tid ''Task timeout''
            (emit (TaskTimeout (Map_get (processingTasks q) tid)) q))"

text \<open>The elapsed-time test of the sweep on a record that has a start instant.\<close>

definition elapsed_exceeds :: "int \<Rightarrow> int \<Rightarrow> task \<Rightarrow> bool" where
  "elapsed_exceeds now timeoutSeconds t =
     (case startedAt t of None \<Rightarrow> False | Some s \<Rightarrow> now - s > timeoutSeconds * 1000)"

text \<open>The ids the sweep has to handle: in-flight records past their limit, in map order.\<close>

definition overdue :: "int \<Rightarrow> task_queue \<Rightarrow> string list" where
  "overdue now q =
     map fst (filter (\<lambda>kv. elapsed_exceeds now (taskTimeout (options q)) (snd kv))
                (processingTasks q))"

text \<open>The two totals agree with the history of emissions.\<close>

definition stats_agree :: "task_queue \<Rightarrow> bool" where
  "stats_agree q =
     (totalProcessed (stats q) = count_completed (emitted q)
      \<and> totalFailed (stats q) = count_failed (emitted q))"

text \<open>The queue after a successful \<open>enqueue\<close> of a new task built from \<open>cfg\<close>.\<close>

definition submitted :: "string \<Rightarrow> int \<Rightarrow> jsval \<Rightarrow> task_queue \<Rightarrow> task_queue" where
  "submitted uuid now cfg q =
     processNext now
       (emit (TaskEnqueued (Task_new uuid now cfg))
          (q\<lparr> pendingQueue := pendingQueue q @ [Task_new uuid now cfg] \<rparr>))"

text \<open>
  The ids of the waiting tasks are pairwise different and none of them is a key of the
  in-flight map.
\<close>

definition ids_apart :: "task_queue \<Rightarrow> bool" where
  "ids_apart q =
     (distinct (map taskId (pendingQueue q))
      \<and> list_all (\<lambda>t. \<not> Map_has (processingTasks q) (taskId t)) (pendingQueue q))"

text \<open>A queue state is well formed when it meets the bound and the two conditions on ids.\<close>

definition queue_wf :: "task_queue \<Rightarrow> bool" where
  "queue_wf q = (within_limit q \<and> inflight_wf q \<and> ids_apart q)"

section \<open>Sample data for concrete runs\<close>

definition demo_config :: jsval where
  "demo_config =
     JObject [(''type'', JStr ''png''), (''width'', JNum 600), (''height'', JNum 400),
              (''option'', JObject [(''series'', JArray [])])]"

definition demo_zero_width :: jsval where
  "demo_zero_width = JObject [(''option'', JObject [(''series'', JArray [])]), (''width'', JNum 0)]"

definition demo_task :: "string \<Rightarrow> task" where
  "demo_task tid = Task_new tid 0 demo_config"

definition demo_queue :: "int \<Rightarrow> int \<Rightarrow> task_queue" where
  "demo_queue maxC retries =
     TaskQueue_new \<lparr> given_maxConcurrent = Some maxC, given_taskTimeout = None,
                     given_retryAttempts = Some retries \<rparr>"

definition demo_manager :: task_manager where
  "demo_manager = \<lparr> taskQueue = demo_queue 2 3, metricsService = MetricsService_new \<rparr>"

text \<open>One task submitted at time 0 and admitted at once.\<close>

definition demo_started :: task where
  "demo_started = (demo_task ''a'')\<lparr> status := Processing, startedAt := Some 0 \<rparr>"

definition demo_inflight :: "int \<Rightarrow> task_queue" where
  "demo_inflight retries = run [(0, Enqueue (demo_task ''a''))] (demo_queue 2 retries)"

text \<open>With no retries allowed: a submission and its failure one millisecond later.\<close>

definition demo_failed_run :: task_queue where
  "demo_failed_run =
     run [(0, Enqueue (demo_task ''a'')), (1, FailTask ''a'' ''boom'')] (demo_queue 2 0)"

text \<open>A submission, its completion after a second, and a cleanup more than ten days later.\<close>

definition demo_evicted_run :: task_queue where
  "demo_evicted_run =
     run [(0, Enqueue (demo_task ''a'')),
          (1000, CompleteTask ''a'' ''http://img/a.png'' (Some ''a.png'')),
          (900000000, CleanupExpiredTasks 7)] (demo_queue 2 0)"

text \<open>With no retries allowed: a submission and a sweep 301 seconds later (the limit is 300).\<close>

definition demo_timeout_run :: task_queue where
  "demo_timeout_run =
     run [(0, Enqueue (demo_task ''a'')), (301000, CheckTimeouts)] (demo_queue 2 0)"

text \<open>A pause followed by a submission.\<close>

definition demo_paused_run :: task_queue where
  "demo_paused_run = run [(0, Pause), (1, Enqueue (demo_task ''a''))] (demo_queue 2 3)"

text \<open>A queue with \<open>n\<close> tasks waiting.\<close>

definition demo_backlog :: "nat \<Rightarrow> task_queue" where
  "demo_backlog n = (demo_queue 2 3)\<lparr> pendingQueue := replicate n (demo_task ''a'') \<rparr>"

text \<open>A scheduler with three attempts per cycle, and two behaviours of the manager's cleanup.\<close>

definition demo_service :: cleanup_service where
  "demo_service =
     \<lparr> maxRetries = 3, isRunning = True, lastCleanupTime = None,
       cleanupStats = \<lparr> totalRuns = 4, totalTasksCleaned = 10, totalFilesCleaned = 9,
                        totalErrors = 1, lastRunDuration = 12 \<rparr> \<rparr>"

definition always_throws :: "int \<Rightarrow> js_error + cleanup_result" where
  "always_throws k = Inl (Error ''store unreachable'')"

definition third_time_lucky :: "int \<Rightarrow> js_error + cleanup_result" where
  "third_time_lucky k =
     (if k < 3 then Inl (Error ''store unreachable'')
      else Inr \<lparr> cleanedTasks = 5, deletedFiles = 4, cleanupErrors = [(''f.png'', ''denied'')] \<rparr>)"

text \<open>Two tasks submitted at times 0 and 1, both admitted (the bound is 2).\<close>

definition demo_pair :: "int \<Rightarrow> task_queue" where
  "demo_pair retries =
     run [(0, Enqueue (demo_task ''a'')), (1, Enqueue (demo_task ''b''))] (demo_queue 2 retries)"

section \<open>Basic facts about the containers\<close>

lemma length_Map_delete: "length (Map_delete k m) \<le> length m"
  by (simp add: Map_delete_def)

lemma length_Map_set: "length (Map_set k v m) \<le> Suc (length m)"
  by (induction m) auto

lemma options_emit [simp]: "options (emit e q) = options q"
  and processing_emit [simp]: "processingTasks (emit e q) = processingTasks q"
  and pending_emit [simp]: "pendingQueue (emit e q) = pendingQueue q"
  and completed_emit [simp]: "completedTasks (emit e q) = completedTasks q"
  and stats_emit [simp]: "stats (emit e q) = stats q"
  by (simp_all add: emit_def)

lemma options_updateStats [simp]: "options (updateStats t q) = options q"
  and processing_updateStats [simp]: "processingTasks (updateStats t q) = processingTasks q"
  and pending_updateStats [simp]: "pendingQueue (updateStats t q) = pendingQueue q"
  and completed_updateStats [simp]: "completedTasks (updateStats t q) = completedTasks q"
  and emitted_updateStats [simp]: "emitted (updateStats t q) = emitted q"
  by (simp_all add: updateStats_def Let_def split: option.splits)

lemma options_processNext [simp]: "options (processNext now q) = options q"
  by (simp add: processNext_def startProcessing_def Let_def split: list.splits)

lemma options_failTask [simp]: "options (snd (failTask now tid err q)) = options q"
  by (auto simp: failTask_def retryBranch_def failBranch_def Let_def split: option.splits)

lemma options_failTimeouts [simp]: "options (snd (failTimeouts now tids q)) = options q"
proof (induction tids arbitrary: q)
  case Nil
  show ?case by simp
next
  case (Cons tid tids)
  let ?r = "failTask now tid ''Task timeout'' (emit (TaskTimeout (Map_get (processingTasks q) tid)) q)"
  obtain e q' where r: "?r = (e, q')"
    by (cases ?r)
  have "options (snd ?r) = options q"
    by simp
  with r have "options q' = options q"
    by simp
  with r Cons.IH [of q'] show ?case
    by (cases e) simp_all
qed

lemma options_apply_op [simp]: "options (apply_op op q) = options q"
proof (cases op)
  case (Pair now o')
  then show ?thesis
    by (cases o')
       (auto simp: enqueue_def completeTask_def checkTimeouts_def cleanupExpiredTasks_def
                   pause_def resume_def Let_def
             split: option.splits prod.splits)
qed

lemma options_run [simp]: "options (run ops q) = options q"
  unfolding run_def by (induction ops arbitrary: q) simp_all

section \<open>The concurrency bound\<close>

lemma within_limit_emit [simp]: "within_limit (emit e q) = within_limit q"
  by (simp add: within_limit_def)

lemma within_limit_processNext: "within_limit q \<Longrightarrow> within_limit (processNext now q)"
  using length_Map_set [of "taskId (Task_start now (hd (pendingQueue q)))"
          "Task_start now (hd (pendingQueue q))" "processingTasks q"]
  by (auto simp: within_limit_def processNext_def startProcessing_def Let_def Map_size_def
           split: list.splits)

lemma within_limit_drop:
  "within_limit q \<Longrightarrow> options q' = options q
     \<Longrightarrow> processingTasks q' = Map_delete tid (processingTasks q) \<Longrightarrow> within_limit q'"
  using length_Map_delete [of tid "processingTasks q"]
  by (simp add: within_limit_def Map_size_def)

lemma within_limit_enqueue: "within_limit q \<Longrightarrow> within_limit (snd (enqueue now t q))"
  by (auto simp: enqueue_def intro!: within_limit_processNext) (simp add: within_limit_def)

lemma within_limit_completeTask:
  "within_limit q \<Longrightarrow> within_limit (snd (completeTask now tid url fname q))"
  by (auto simp: completeTask_def Let_def split: option.splits
           intro!: within_limit_processNext elim!: within_limit_drop)

lemma within_limit_failTask: "within_limit q \<Longrightarrow> within_limit (snd (failTask now tid err q))"
  by (auto simp: failTask_def retryBranch_def failBranch_def Let_def split: option.splits
           intro!: within_limit_processNext elim!: within_limit_drop)

lemma within_limit_failTimeouts:
  "within_limit q \<Longrightarrow> within_limit (snd (failTimeouts now tids q))"
proof (induction tids arbitrary: q)
  case Nil
  then show ?case by simp
next
  case (Cons tid tids)
  let ?q1 = "emit (TaskTimeout (Map_get (processingTasks q) tid)) q"
  have "within_limit (snd (failTask now tid ''Task timeout'' ?q1))"
    using Cons.prems by (intro within_limit_failTask) simp
  then show ?case
    using Cons.IH by (auto split: prod.splits option.splits)
qed

lemma within_limit_cleanup:
  "within_limit q \<Longrightarrow> within_limit (snd (cleanupExpiredTasks now days q))"
  by (auto simp: cleanupExpiredTasks_def Let_def within_limit_def split: prod.splits)

lemma within_limit_apply_op: "within_limit q \<Longrightarrow> within_limit (apply_op op q)"
proof (cases op)
  case (Pair now o')
  assume w: "within_limit q"
  show ?thesis
  proof (cases o')
    case (Enqueue t)
    with Pair w show ?thesis by (simp add: within_limit_enqueue)
  next
    case ProcessNext
    with Pair w show ?thesis by (simp add: within_limit_processNext)
  next
    case (CompleteTask a b c)
    with Pair w show ?thesis by (simp add: within_limit_completeTask)
  next
    case (FailTask a b)
    with Pair w show ?thesis by (simp add: within_limit_failTask)
  next
    case CheckTimeouts
    with Pair w show ?thesis by (simp add: checkTimeouts_def within_limit_failTimeouts)
  next
    case (CleanupExpiredTasks d)
    with Pair w show ?thesis by (simp add: within_limit_cleanup)
  next
    case Pause
    with Pair w show ?thesis by (simp add: pause_def within_limit_def)
  next
    case Resume
    have "within_limit (q\<lparr>timeoutCheckInterval := True\<rparr>)"
      using w by (simp add: within_limit_def)
    with Pair Resume show ?thesis by (simp add: resume_def within_limit_processNext)
  qed
qed




text \<open>
  Claim C10. For an id that is not in the in-flight map, \<open>completeTask\<close> and \<open>failTask\<close>
  each throw the error "Task <id> not found in processing queue" and leave the whole queue
  state (the three containers with every record in them, the statistics and the history of
  emitted events) exactly as it was.
\<close>

theorem unknown_id_throws_and_changes_nothing:
  "\<not> Map_has (processingTasks q) tid \<Longrightarrow>
     completeTask now tid url fname q
       = (Some (Error (''Task '' @ tid @ '' not found in processing queue'')), q)
     \<and> failTask now tid reason q
       = (Some (Error (''Task '' @ tid @ '' not found in processing queue'')), q)"
  by (simp add: Map_has_def Map_get_def completeTask_def failTask_def not_found_def)

theorem unknown_id_throws_and_changes_nothing_witness:
  "\<not> Map_has (processingTasks (demo_queue 2 3)) ''x1''
   \<and> completeTask 7 ''x1'' ''http://img'' None (demo_queue 2 3)
       = (Some (Error ''Task x1 not found in processing queue''), demo_queue 2 3)
   \<and> failTask 7 ''x1'' ''boom'' (demo_queue 2 3)
       = (Some (Error ''Task x1 not found in processing queue''), demo_queue 2 3)"
proof -
  have h: "\<not> Map_has (processingTasks (demo_queue 2 3)) ''x1''"
    by (simp add: Map_has_def demo_queue_def TaskQueue_new_def)
  from unknown_id_throws_and_changes_nothing [OF h, of 7 "''http://img''" None "''boom''"] h
  show ?thesis
    by simp
qed

section \<open>The retry budget\<close>

lemma in_Map_setD: "(a, b) \<in> set (Map_set k v m) \<Longrightarrow> (a = k \<and> b = v) \<or> (a, b) \<in> set m"
  by (induction m) (auto split: if_splits)

lemma in_Map_deleteD: "(a, b) \<in> set (Map_delete k m) \<Longrightarrow> (a, b) \<in> set m \<and> a \<noteq> k"
  by (auto simp: Map_delete_def)

lemma Map_get_in_set: "Map_get m k = Some v \<Longrightarrow> (k, v) \<in> set m"
  by (simp add: Map_get_def map_of_SomeD)

lemma retry_bounded_iff:
  "retry_bounded q \<longleftrightarrow>
     (\<forall>t \<in> set (pendingQueue q) \<union> snd ` set (processingTasks q) \<union> snd ` set (completedTasks q).
        retryCount t \<le> retryAttempts (options q))"
  by (auto simp: retry_bounded_def all_tasks_def list_all_iff)

lemma retry_bounded_processNext: "retry_bounded q \<Longrightarrow> retry_bounded (processNext now q)"
  by (auto simp: retry_bounded_iff processNext_def startProcessing_def Let_def Task_start_def
           split: list.splits dest!: in_Map_setD)

lemma retry_bounded_enqueue:
  "retry_bounded q \<Longrightarrow> retryCount t \<le> retryAttempts (options q) \<Longrightarrow> retry_bounded (snd (enqueue now t q))"
  by (auto simp: enqueue_def intro!: retry_bounded_processNext) (auto simp: retry_bounded_iff)

lemma retry_bounded_completeTask:
  assumes "retry_bounded q"
  shows "retry_bounded (snd (completeTask now tid url fname q))"
proof (cases "Map_get (processingTasks q) tid")
  case None
  with assms show ?thesis by (simp add: completeTask_def)
next
  case (Some t)
  let ?t' = "Task_complete now url fname t"
  let ?q3 = "emit (TaskCompleted ?t') (updateStats ?t'
     (q\<lparr> processingTasks := Map_delete tid (processingTasks q),
         completedTasks := Map_set tid ?t' (completedTasks q) \<rparr>))"
  have "retryCount t \<le> retryAttempts (options q)"
    using assms Map_get_in_set [OF Some] by (force simp: retry_bounded_iff)
  then have "retry_bounded ?q3"
    using assms
    by (auto simp: retry_bounded_iff Task_complete_def dest!: in_Map_setD in_Map_deleteD)
  then show ?thesis
    using Some by (simp add: completeTask_def Let_def retry_bounded_processNext)
qed

lemma retry_bounded_failTask:
  assumes "retry_bounded q"
  shows "retry_bounded (snd (failTask now tid err q))"
proof (cases "Map_get (processingTasks q) tid")
  case None
  with assms show ?thesis by (simp add: failTask_def)
next
  case (Some t)
  have "retry_bounded (retryBranch tid t q)" if "retryCount t < retryAttempts (options q)"
    using assms that
    by (auto simp: retry_bounded_iff retryBranch_def Let_def Task_retry_def
             dest!: in_Map_deleteD)
  moreover have "retryCount t \<le> retryAttempts (options q)"
    using assms Map_get_in_set [OF Some] by (force simp: retry_bounded_iff)
  then have "retry_bounded (failBranch now tid err t q)"
    using assms
    by (auto simp: retry_bounded_iff failBranch_def Let_def Task_fail_def
             dest!: in_Map_setD in_Map_deleteD)
  ultimately show ?thesis
    using Some by (simp add: failTask_def retry_bounded_processNext)
qed

lemma retry_bounded_emit [simp]: "retry_bounded (emit e q) = retry_bounded q"
  by (simp add: retry_bounded_iff)

lemma retry_bounded_failTimeouts:
  "retry_bounded q \<Longrightarrow> retry_bounded (snd (failTimeouts now tids q))"
proof (induction tids arbitrary: q)
  case Nil
  then show ?case by simp
next
  case (Cons tid tids)
  let ?q1 = "emit (TaskTimeout (Map_get (processingTasks q) tid)) q"
  have "retry_bounded (snd (failTask now tid ''Task timeout'' ?q1))"
    using Cons.prems by (intro retry_bounded_failTask) simp
  then show ?case
    using Cons.IH by (auto split: prod.splits option.splits)
qed

lemma set_cleanupLoop: "set (fst (cleanupLoop now days es (m, ex))) \<subseteq> set m"
proof (induction es arbitrary: m ex)
  case Nil
  show ?case by simp
next
  case (Cons e es)
  obtain k t where e: "e = (k, t)" by (cases e)
  show ?case
    using Cons.IH [of "Map_delete k m" "ex @ [t]"] Cons.IH [of m ex]
    by (auto simp: e dest!: in_Map_deleteD)
qed

lemma retry_bounded_cleanup:
  assumes "retry_bounded q"
  shows "retry_bounded (snd (cleanupExpiredTasks now days q))"
proof -
  obtain m ex where c: "cleanupLoop now days (completedTasks q) (completedTasks q, []) = (m, ex)"
    by (cases "cleanupLoop now days (completedTasks q) (completedTasks q, [])")
  have "set m \<subseteq> set (completedTasks q)"
    using set_cleanupLoop [of now days "completedTasks q" "completedTasks q" "[]"] c by simp
  then have "snd ` set m \<subseteq> snd ` set (completedTasks q)"
    by (rule image_mono)
  with assms have "retry_bounded (q\<lparr> completedTasks := m \<rparr>)"
    unfolding retry_bounded_iff by simp blast
  with c show ?thesis
    by (simp add: cleanupExpiredTasks_def Let_def)
qed

lemma retry_bounded_run:
  "retry_bounded q \<Longrightarrow> list_all (\<lambda>t. retryCount t \<le> retryAttempts (options q)) (enqueued ops)
     \<Longrightarrow> retry_bounded (run ops q)"
proof (induction ops arbitrary: q)
  case Nil
  then show ?case by (simp add: run_def)
next
  case (Cons op ops)
  obtain now o' where op: "op = (now, o')" by (cases op)
  have step: "retry_bounded (apply_op op q)"
  proof (cases o')
    case (Enqueue t)
    with op Cons.prems show ?thesis by (simp add: retry_bounded_enqueue)
  next
    case ProcessNext
    with op Cons.prems show ?thesis by (simp add: retry_bounded_processNext)
  next
    case (CompleteTask a b c)
    with op Cons.prems show ?thesis by (simp add: retry_bounded_completeTask)
  next
    case (FailTask a b)
    with op Cons.prems show ?thesis by (simp add: retry_bounded_failTask)
  next
    case CheckTimeouts
    with op Cons.prems show ?thesis by (simp add: checkTimeouts_def retry_bounded_failTimeouts)
  next
    case (CleanupExpiredTasks d)
    with op Cons.prems show ?thesis by (simp add: retry_bounded_cleanup)
  next
    case Pause
    with op Cons.prems show ?thesis by (simp add: pause_def retry_bounded_iff)
  next
    case Resume
    have "retry_bounded (q\<lparr>timeoutCheckInterval := True\<rparr>)"
      using Cons.prems by (simp add: retry_bounded_iff)
    with op Resume show ?thesis by (simp add: resume_def retry_bounded_processNext)
  qed
  have "list_all (\<lambda>t. retryCount t \<le> retryAttempts (options q)) (enqueued ops)"
    using Cons.prems(2) op by (cases o') simp_all
  then have rest: "list_all (\<lambda>t. retryCount t \<le> retryAttempts (options (apply_op op q))) (enqueued ops)"
    by simp
  have "run (op # ops) q = run ops (apply_op op q)"
    by (simp add: run_def)
  with Cons.IH [OF step rest] show ?case by simp
qed

text \<open>The sample queue with one task in flight, written out.\<close>

lemma demo_inflight_eval:
  "demo_inflight r =
     (demo_queue 2 r)\<lparr> processingTasks := [(''a'', demo_started)],
                        emitted := [TaskEnqueued (demo_task ''a''), TaskStarted demo_started] \<rparr>"
  by (simp add: demo_inflight_def run_def enqueue_def demo_task_def Task_new_def hasTask_def
        getTask_def Map_has_def Map_get_def demo_queue_def TaskQueue_new_def processNext_def
        Map_size_def startProcessing_def Task_start_def emit_def demo_started_def Let_def)

section \<open>The processed and failed totals\<close>

lemma count_completed_append:
  "count_completed (xs @ ys) = count_completed xs + count_completed ys"
  by (induction xs rule: count_completed.induct) simp_all

lemma count_failed_append:
  "count_failed (xs @ ys) = count_failed xs + count_failed ys"
  by (induction xs rule: count_failed.induct) simp_all

lemma emitted_emit [simp]: "emitted (emit e q) = emitted q @ [e]"
  by (simp add: emit_def)

lemma stats_processNext [simp]: "stats (processNext now q) = stats q"
  by (simp add: processNext_def startProcessing_def Let_def split: list.splits)

lemma stats_agree_processNext: "stats_agree q \<Longrightarrow> stats_agree (processNext now q)"
  by (auto simp: stats_agree_def processNext_def startProcessing_def Let_def
        count_completed_append count_failed_append split: list.splits)

lemma totalProcessed_updateStats [simp]:
  "totalProcessed (stats (updateStats t q)) = Suc (totalProcessed (stats q))"
  and totalFailed_updateStats [simp]:
  "totalFailed (stats (updateStats t q)) = totalFailed (stats q)"
  by (simp_all add: updateStats_def Let_def split: option.splits)

lemma stats_agree_enqueue: "stats_agree q \<Longrightarrow> stats_agree (snd (enqueue now t q))"
  by (auto simp: enqueue_def intro!: stats_agree_processNext)
     (simp add: stats_agree_def count_completed_append count_failed_append)

lemma stats_agree_completeTask:
  "stats_agree q \<Longrightarrow> stats_agree (snd (completeTask now tid url fname q))"
  by (auto simp: completeTask_def Let_def split: option.splits intro!: stats_agree_processNext)
     (simp add: stats_agree_def count_completed_append count_failed_append)

lemma stats_agree_failTask:
  "stats_agree q \<Longrightarrow> stats_agree (snd (failTask now tid err q))"
  by (auto simp: failTask_def split: option.splits intro!: stats_agree_processNext)
     (simp_all add: stats_agree_def retryBranch_def failBranch_def Let_def
        count_completed_append count_failed_append)

lemma stats_agree_failTimeouts:
  "stats_agree q \<Longrightarrow> stats_agree (snd (failTimeouts now tids q))"
proof (induction tids arbitrary: q)
  case Nil
  then show ?case by simp
next
  case (Cons tid tids)
  let ?q1 = "emit (TaskTimeout (Map_get (processingTasks q) tid)) q"
  have "stats_agree ?q1"
    using Cons.prems by (simp add: stats_agree_def count_completed_append count_failed_append)
  then have "stats_agree (snd (failTask now tid ''Task timeout'' ?q1))"
    by (rule stats_agree_failTask)
  then show ?case
    using Cons.IH by (auto split: prod.splits option.splits)
qed

lemma stats_agree_cleanup:
  "stats_agree q \<Longrightarrow> stats_agree (snd (cleanupExpiredTasks now days q))"
  by (auto simp: cleanupExpiredTasks_def Let_def stats_agree_def
        count_completed_append count_failed_append split: prod.splits)

lemma stats_agree_apply_op: "stats_agree q \<Longrightarrow> stats_agree (apply_op op q)"
proof (cases op)
  case (Pair now o')
  assume a: "stats_agree q"
  show ?thesis
  proof (cases o')
    case (Enqueue t)
    with Pair a show ?thesis by (simp add: stats_agree_enqueue)
  next
    case ProcessNext
    with Pair a show ?thesis by (simp add: stats_agree_processNext)
  next
    case (CompleteTask x y z)
    with Pair a show ?thesis by (simp add: stats_agree_completeTask)
  next
    case (FailTask x y)
    with Pair a show ?thesis by (simp add: stats_agree_failTask)
  next
    case CheckTimeouts
    with Pair a show ?thesis by (simp add: checkTimeouts_def stats_agree_failTimeouts)
  next
    case (CleanupExpiredTasks d)
    with Pair a show ?thesis by (simp add: stats_agree_cleanup)
  next
    case Pause
    with Pair a show ?thesis
      by (simp add: pause_def stats_agree_def count_completed_append count_failed_append)
  next
    case Resume
    have "stats_agree (processNext now (q\<lparr>timeoutCheckInterval := True\<rparr>))"
      using a by (intro stats_agree_processNext) (simp add: stats_agree_def)
    with Pair Resume show ?thesis
      by (simp add: resume_def stats_agree_def count_completed_append count_failed_append)
  qed
qed

lemma stats_agree_run: "stats_agree q \<Longrightarrow> stats_agree (run ops q)"
  unfolding run_def by (induction ops arbitrary: q) (simp_all add: stats_agree_apply_op)

lemma totalProcessed_failTask [simp]:
  "totalProcessed (stats (snd (failTask now tid err q))) = totalProcessed (stats q)"
  by (simp add: failTask_def retryBranch_def failBranch_def Let_def split: option.splits)

lemma totalProcessed_failTimeouts [simp]:
  "totalProcessed (stats (snd (failTimeouts now tids q))) = totalProcessed (stats q)"
proof (induction tids arbitrary: q)
  case Nil
  show ?case by simp
next
  case (Cons tid tids)
  let ?r = "failTask now tid ''Task timeout'' (emit (TaskTimeout (Map_get (processingTasks q) tid)) q)"
  obtain e q' where r: "?r = (e, q')"
    by (cases ?r)
  have "totalProcessed (stats (snd ?r)) = totalProcessed (stats q)"
    by simp
  with r have "totalProcessed (stats q') = totalProcessed (stats q)"
    by simp
  with r Cons.IH [of q'] show ?case
    by (cases e) simp_all
qed

lemma totalProcessed_mono: "totalProcessed (stats q) \<le> totalProcessed (stats (apply_op op q))"
proof (cases op)
  case (Pair now o')
  then show ?thesis
    by (cases o')
       (auto simp: enqueue_def completeTask_def checkTimeouts_def cleanupExpiredTasks_def
                   pause_def resume_def Let_def
             split: option.splits prod.splits)
qed

text \<open>
  Claim C4, as amended. In every run from a fresh queue, \<open>totalProcessed\<close> equals the
  number of \<open>taskCompleted\<close> emissions so far (records that reached state completed) and
  \<open>totalFailed\<close> equals the number of \<open>taskFailed\<close> emissions; failed records are not
  counted in \<open>totalProcessed\<close> and retention cleanup does not change it. No call ever
  decreases \<open>totalProcessed\<close>.
\<close>

theorem totalProcessed_counts_completions_only:
  "totalProcessed (stats (run ops (TaskQueue_new raw)))
     = count_completed (emitted (run ops (TaskQueue_new raw)))
   \<and> totalFailed (stats (run ops (TaskQueue_new raw)))
     = count_failed (emitted (run ops (TaskQueue_new raw)))
   \<and> totalProcessed (stats q) \<le> totalProcessed (stats (apply_op op q))"
proof -
  have "stats_agree (TaskQueue_new raw)"
    by (simp add: stats_agree_def TaskQueue_new_def)
  then have "stats_agree (run ops (TaskQueue_new raw))"
    by (rule stats_agree_run)
  then show ?thesis
    by (simp add: stats_agree_def totalProcessed_mono)
qed

text \<open>
  The claim as stated fails. With \<open>retryAttempts = 0\<close>, one submission followed by one
  failure leaves \<open>totalProcessed = 0\<close> although one record reached state failed; and one
  submission, its completion and its eviction by retention cleanup leave
  \<open>totalProcessed = 1\<close> although completed plus failed minus evicted is zero.
\<close>

theorem totalProcessed_not_completed_plus_failed_minus_evicted:
  "totalProcessed (stats demo_failed_run) = 0
   \<and> count_completed (emitted demo_failed_run) = 0
   \<and> count_failed (emitted demo_failed_run) = 1
   \<and> count_evicted (emitted demo_failed_run) = 0
   \<and> int (totalProcessed (stats demo_failed_run))
     \<noteq> int (count_completed (emitted demo_failed_run))
         + int (count_failed (emitted demo_failed_run))
         - int (count_evicted (emitted demo_failed_run))
   \<and> totalProcessed (stats demo_evicted_run) = 1
   \<and> count_completed (emitted demo_evicted_run) = 1
   \<and> count_failed (emitted demo_evicted_run) = 0
   \<and> count_evicted (emitted demo_evicted_run) = 1
   \<and> int (totalProcessed (stats demo_evicted_run))
     \<noteq> int (count_completed (emitted demo_evicted_run))
         + int (count_failed (emitted demo_evicted_run))
         - int (count_evicted (emitted demo_evicted_run))"
  by code_simp

section \<open>The timeout sweep\<close>

lemma keys_Map_set: "fst ` set (Map_set k v m) = insert k (fst ` set m)"
  by (induction m) force+

lemma distinct_Map_set: "distinct (map fst m) \<Longrightarrow> distinct (map fst (Map_set k v m))"
  by (induction m) (auto simp: keys_Map_set)

lemma distinct_Map_delete: "distinct (map fst m) \<Longrightarrow> distinct (map fst (Map_delete k m))"
  by (simp add: Map_delete_def distinct_map_filter)

lemma keys_Map_delete: "fst ` set (Map_delete k m) = fst ` set m - {k}"
  by (auto simp: Map_delete_def)

lemma list_all_Map_set: "P (k, v) \<Longrightarrow> list_all P m \<Longrightarrow> list_all P (Map_set k v m)"
  by (induction m) auto

lemma list_all_Map_delete: "list_all P m \<Longrightarrow> list_all P (Map_delete k m)"
  by (simp add: Map_delete_def list_all_iff)

lemma inflight_wf_emit [simp]: "inflight_wf (emit e q) = inflight_wf q"
  by (simp add: inflight_wf_def)

lemma inflight_wf_processNext: "inflight_wf q \<Longrightarrow> inflight_wf (processNext now q)"
  by (auto simp: inflight_wf_def processNext_def startProcessing_def Let_def Task_start_def
           intro!: distinct_Map_set list_all_Map_set split: list.splits)

lemma inflight_wf_drop:
  "inflight_wf q \<Longrightarrow> processingTasks q' = Map_delete tid (processingTasks q) \<Longrightarrow> inflight_wf q'"
  by (simp add: inflight_wf_def distinct_Map_delete list_all_Map_delete)

lemma inflight_wf_enqueue: "inflight_wf q \<Longrightarrow> inflight_wf (snd (enqueue now t q))"
  by (auto simp: enqueue_def intro!: inflight_wf_processNext) (simp add: inflight_wf_def)

lemma inflight_wf_completeTask:
  assumes "inflight_wf q"
  shows "inflight_wf (snd (completeTask now tid url fname q))"
proof (cases "Map_get (processingTasks q) tid")
  case None
  with assms show ?thesis by (simp add: completeTask_def)
next
  case (Some t)
  let ?t' = "Task_complete now url fname t"
  let ?q3 = "emit (TaskCompleted ?t') (updateStats ?t'
     (q\<lparr> processingTasks := Map_delete tid (processingTasks q),
         completedTasks := Map_set tid ?t' (completedTasks q) \<rparr>))"
  have "inflight_wf ?q3"
    by (rule inflight_wf_drop [OF assms]) simp
  then show ?thesis
    using Some by (simp add: completeTask_def Let_def inflight_wf_processNext)
qed

lemma inflight_wf_failTask:
  assumes "inflight_wf q"
  shows "inflight_wf (snd (failTask now tid err q))"
proof (cases "Map_get (processingTasks q) tid")
  case None
  with assms show ?thesis by (simp add: failTask_def)
next
  case (Some t)
  have "inflight_wf (retryBranch tid t q)"
    by (rule inflight_wf_drop [OF assms]) (simp add: retryBranch_def Let_def)
  moreover have "inflight_wf (failBranch now tid err t q)"
    by (rule inflight_wf_drop [OF assms]) (simp add: failBranch_def Let_def)
  ultimately show ?thesis
    using Some by (simp add: failTask_def inflight_wf_processNext)
qed

lemma inflight_wf_failTimeouts:
  "inflight_wf q \<Longrightarrow> inflight_wf (snd (failTimeouts now tids q))"
proof (induction tids arbitrary: q)
  case Nil
  then show ?case by simp
next
  case (Cons tid tids)
  let ?q1 = "emit (TaskTimeout (Map_get (processingTasks q) tid)) q"
  have "inflight_wf (snd (failTask now tid ''Task timeout'' ?q1))"
    using Cons.prems by (intro inflight_wf_failTask) simp
  then show ?case
    using Cons.IH by (auto split: prod.splits option.splits)
qed

lemma inflight_wf_cleanup:
  "inflight_wf q \<Longrightarrow> inflight_wf (snd (cleanupExpiredTasks now days q))"
  by (auto simp: cleanupExpiredTasks_def Let_def inflight_wf_def split: prod.splits)

lemma inflight_wf_apply_op: "inflight_wf q \<Longrightarrow> inflight_wf (apply_op op q)"
proof (cases op)
  case (Pair now o')
  assume a: "inflight_wf q"
  show ?thesis
  proof (cases o')
    case (Enqueue t)
    with Pair a show ?thesis by (simp add: inflight_wf_enqueue)
  next
    case ProcessNext
    with Pair a show ?thesis by (simp add: inflight_wf_processNext)
  next
    case (CompleteTask x y z)
    with Pair a show ?thesis by (simp add: inflight_wf_completeTask)
  next
    case (FailTask x y)
    with Pair a show ?thesis by (simp add: inflight_wf_failTask)
  next
    case CheckTimeouts
    with Pair a show ?thesis by (simp add: checkTimeouts_def inflight_wf_failTimeouts)
  next
    case (CleanupExpiredTasks d)
    with Pair a show ?thesis by (simp add: inflight_wf_cleanup)
  next
    case Pause
    with Pair a show ?thesis by (simp add: pause_def inflight_wf_def)
  next
    case Resume
    have "inflight_wf (q\<lparr>timeoutCheckInterval := True\<rparr>)"
      using a by (simp add: inflight_wf_def)
    with Pair Resume show ?thesis by (simp add: resume_def inflight_wf_processNext)
  qed
qed

lemma inflight_wf_run: "inflight_wf q \<Longrightarrow> inflight_wf (run ops q)"
  unfolding run_def by (induction ops arbitrary: q) (simp_all add: inflight_wf_apply_op)

lemma inflight_wf_new: "inflight_wf (TaskQueue_new raw)"
  by (simp add: inflight_wf_def TaskQueue_new_def)

text \<open>Keys other than the failed one stay in the in-flight map.\<close>

lemma keys_processNext: "fst ` set (processingTasks q) \<subseteq> fst ` set (processingTasks (processNext now q))"
  by (auto simp: processNext_def startProcessing_def Let_def keys_Map_set split: list.splits)

lemma keys_failTask:
  assumes "k \<in> fst ` set (processingTasks q)" and "k \<noteq> tid"
  shows "k \<in> fst ` set (processingTasks (snd (failTask now tid err q)))"
proof (cases "Map_get (processingTasks q) tid")
  case None
  with assms show ?thesis by (simp add: failTask_def)
next
  case (Some t)
  have "k \<in> fst ` set (Map_delete tid (processingTasks q))"
    using assms by (simp add: keys_Map_delete)
  then have "k \<in> fst ` set (processingTasks (retryBranch tid t q))"
    and "k \<in> fst ` set (processingTasks (failBranch now tid err t q))"
    by (simp_all add: retryBranch_def failBranch_def Let_def)
  then have "k \<in> fst ` set (processingTasks (processNext now (retryBranch tid t q)))"
    and "k \<in> fst ` set (processingTasks (processNext now (failBranch now tid err t q)))"
    using keys_processNext by blast+
  then show ?thesis
    using Some by (simp add: failTask_def)
qed

lemma failTask_present:
  "tid \<in> fst ` set (processingTasks q) \<Longrightarrow> fst (failTask now tid err q) = None"
  by (auto simp: failTask_def Map_get_def map_of_eq_None_iff split: option.splits)

lemma failTimeouts_fold:
  "distinct tids \<Longrightarrow> set tids \<subseteq> fst ` set (processingTasks q)
     \<Longrightarrow> failTimeouts now tids q = (None, fold (timeoutStep now) tids q)"
proof (induction tids arbitrary: q)
  case Nil
  show ?case by simp
next
  case (Cons tid tids)
  let ?q1 = "emit (TaskTimeout (Map_get (processingTasks q) tid)) q"
  let ?r = "failTask now tid ''Task timeout'' ?q1"
  have "tid \<in> fst ` set (processingTasks ?q1)"
    using Cons.prems(2) by simp
  then have none: "fst ?r = None"
    by (rule failTask_present)
  have "set tids \<subseteq> fst ` set (processingTasks (snd ?r))"
  proof
    fix k
    assume k: "k \<in> set tids"
    with Cons.prems have "k \<in> fst ` set (processingTasks ?q1)" and "k \<noteq> tid"
      by auto
    then show "k \<in> fst ` set (processingTasks (snd ?r))"
      by (rule keys_failTask)
  qed
  moreover have "distinct tids"
    using Cons.prems(1) by simp
  ultimately have ih: "failTimeouts now tids (snd ?r) = (None, fold (timeoutStep now) tids (snd ?r))"
    by (rule Cons.IH [rotated])
  obtain q' where r: "?r = (None, q')"
    using none by (cases ?r) simp
  have "failTimeouts now (tid # tids) q = failTimeouts now tids q'"
    using r by simp
  also have "\<dots> = (None, fold (timeoutStep now) tids q')"
    using ih r by simp
  also have "q' = timeoutStep now tid q"
    using r by (simp add: timeoutStep_def)
  finally show ?case
    by simp
qed

lemma timeoutTasks_wf:
  assumes "inflight_wf q"
  shows "timeoutTasks now q =
           map fst (filter (\<lambda>kv. elapsed_exceeds now (taskTimeout (options q)) (snd kv))
                      (processingTasks q))"
proof -
  have "\<forall>kv \<in> set (processingTasks q).
          Task_isTimeout now (taskTimeout (options q)) (snd kv)
            = elapsed_exceeds now (taskTimeout (options q)) (snd kv)"
    using assms by (auto simp: inflight_wf_def list_all_iff Task_isTimeout_def elapsed_exceeds_def)
  then have "filter (\<lambda>kv. Task_isTimeout now (taskTimeout (options q)) (snd kv)) (processingTasks q)
           = filter (\<lambda>kv. elapsed_exceeds now (taskTimeout (options q)) (snd kv)) (processingTasks q)"
    by (intro filter_cong) simp_all
  then show ?thesis
    by (simp add: timeoutTasks_def)
qed

lemma checkTimeouts_wf:
  assumes "inflight_wf q"
  shows "checkTimeouts now q = (None, fold (timeoutStep now) (timeoutTasks now q) q)"
proof -
  have "distinct (timeoutTasks now q)"
    using assms by (simp add: timeoutTasks_def inflight_wf_def distinct_map_filter)
  moreover have "set (timeoutTasks now q) \<subseteq> fst ` set (processingTasks q)"
    by (auto simp: timeoutTasks_def)
  ultimately show ?thesis
    unfolding checkTimeouts_def by (rule failTimeouts_fold)
qed

lemma timeoutStep_present:
  "Map_get (processingTasks q) tid = Some t \<Longrightarrow>
     timeoutStep now tid q =
       (if retryCount t < retryAttempts (options q)
        then processNext now (retryBranch tid t (emit (TaskTimeout (Some t)) q))
        else processNext now (failBranch now tid ''Task timeout'' t (emit (TaskTimeout (Some t)) q)))"
  by (simp add: timeoutStep_def failTask_def)

text \<open>
  Claim C5, as amended. In every state reached from a fresh queue, the timeout sweep throws
  nothing and handles exactly the in-flight records whose elapsed time \<open>now - startedAt\<close>
  exceeds \<open>taskTimeout\<close> seconds, in the order of the in-flight map: for each it emits
  \<open>taskTimeout\<close> and then runs \<open>failTask\<close> with the reason "Task timeout" (capital T).
  That step is the ordinary failure path: a record with \<open>retryCount < retryAttempts\<close> is
  retried, any other is failed with error "Task timeout".
\<close>

theorem timeout_sweep_fails_each_overdue_task:
  "checkTimeouts now (run ops (TaskQueue_new raw))
     = (None, fold (timeoutStep now) (overdue now (run ops (TaskQueue_new raw)))
                (run ops (TaskQueue_new raw)))
   \<and> (Map_get (processingTasks q) tid = Some t \<longrightarrow>
        timeoutStep now tid q =
          (if retryCount t < retryAttempts (options q)
           then processNext now (retryBranch tid t (emit (TaskTimeout (Some t)) q))
           else processNext now
                  (failBranch now tid ''Task timeout'' t (emit (TaskTimeout (Some t)) q))))"
proof -
  have "inflight_wf (run ops (TaskQueue_new raw))"
    by (intro inflight_wf_run inflight_wf_new)
  then show ?thesis
    by (simp add: checkTimeouts_wf timeoutTasks_wf overdue_def timeoutStep_present)
qed

theorem timeout_sweep_fails_each_overdue_task_witness:
  "Map_get (processingTasks (demo_inflight 0)) ''a'' = Some demo_started
   \<and> timeoutStep 301000 ''a'' (demo_inflight 0) =
       processNext 301000
         (failBranch 301000 ''a'' ''Task timeout'' demo_started
            (emit (TaskTimeout (Some demo_started)) (demo_inflight 0)))"
proof -
  have h: "Map_get (processingTasks (demo_inflight 0)) ''a'' = Some demo_started"
    by (simp add: demo_inflight_eval Map_get_def)
  have r: "\<not> retryCount demo_started < retryAttempts (options (demo_inflight 0))"
    by (simp add: demo_inflight_eval demo_queue_def TaskQueue_new_def demo_started_def
          demo_task_def Task_new_def)
  from timeout_sweep_fails_each_overdue_task
         [where q = "demo_inflight 0" and tid = "''a''" and t = demo_started and now = 301000,
          THEN conjunct2, rule_format, OF h] h r
  show ?thesis
    by simp
qed

text \<open>
  The claim as stated fails on the reason: a task submitted at time 0 to a queue with
  \<open>retryAttempts = 0\<close> and swept 301 seconds later is failed with the error
  "Task timeout", which is not the string "task timeout".
\<close>

theorem timeout_reason_is_capitalised:
  "map_option error (getTask demo_timeout_run ''a'') = Some (Some ''Task timeout'')
   \<and> map_option error (getTask demo_timeout_run ''a'') \<noteq> Some (Some ''task timeout'')"
  by code_simp

section \<open>Pause and resume\<close>

text \<open>
  Claim C3. \<open>pause\<close> only stops the timeout sweep and emits \<open>queuePaused\<close>; nothing
  records that the queue is paused, and \<open>processNext\<close> does not ask. On a queue with free
  capacity, a task submitted after \<open>pause\<close> (and before any \<open>resume\<close>) is admitted at once:
  it leaves the pending deque, is in state processing in the in-flight map, and
  \<open>taskStarted\<close> is emitted.
\<close>

theorem enqueue_after_pause_is_admitted:
  "timeoutCheckInterval demo_paused_run = False
   \<and> pendingQueue demo_paused_run = []
   \<and> processingTasks demo_paused_run
       = [(''a'', (demo_task ''a'')\<lparr> status := Processing, startedAt := Some 1 \<rparr>)]
   \<and> emitted demo_paused_run
       = [QueuePaused, TaskEnqueued (demo_task ''a''),
          TaskStarted ((demo_task ''a'')\<lparr> status := Processing, startedAt := Some 1 \<rparr>)]"
  by code_simp

section \<open>The status of the health endpoint\<close>

text \<open>
  Claim C7, as amended. The health endpoint answers 503 with status "degraded" exactly when
  the pending task count is at least 1000, and 200 with status "ok" otherwise. Memory usage
  does not enter the status: a heap reading at or over the 500 MB threshold only sets the
  \<open>memory\<close> entry of \<open>checks\<close> to "warning".
\<close>

theorem health_degrades_on_backlog_only:
  "(statusCode (getSystemHealth q heapUsed oss) = 503) = (int (length (pendingQueue q)) \<ge> 1000)
   \<and> (statusCode (getSystemHealth q heapUsed oss) = 200) = (int (length (pendingQueue q)) < 1000)
   \<and> (data_status (getSystemHealth q heapUsed oss) = ''degraded'')
       = (int (length (pendingQueue q)) \<ge> 1000)
   \<and> (data_status (getSystemHealth q heapUsed oss) = ''ok'')
       = (int (length (pendingQueue q)) < 1000)
   \<and> (check_memory (getSystemHealth q heapUsed oss) = ''warning'') = (\<not> heapUsed < memoryThreshold)"
  by (simp add: getSystemHealth_def getQueueStatus_def Let_def)

text \<open>
  The claim as stated fails in both directions: with an empty pending deque and a heap of
  600 MB the rule of the specification says degraded but the answer is 200 "ok"; with
  exactly 1000 pending tasks and no memory pressure the rule says healthy but the answer is
  503 "degraded".
\<close>

theorem health_ignores_memory_and_degrades_at_1000:
  "spec_degraded (demo_backlog 0) (600 * 1024 * 1024)
   \<and> statusCode (getSystemHealth (demo_backlog 0) (600 * 1024 * 1024) None) = 200
   \<and> data_status (getSystemHealth (demo_backlog 0) (600 * 1024 * 1024) None) = ''ok''
   \<and> \<not> spec_degraded (demo_backlog 1000) 0
   \<and> statusCode (getSystemHealth (demo_backlog 1000) 0 None) = 503
   \<and> data_status (getSystemHealth (demo_backlog 1000) 0 None) = ''degraded''"
  by (simp add: spec_degraded_def getSystemHealth_def getQueueStatus_def Let_def
        demo_backlog_def demo_queue_def TaskQueue_new_def memoryThreshold_def)

section \<open>The cleanup scheduler's statistics\<close>

lemma loop_all_throw:
  "\<forall>k. attempt \<le> k \<and> k \<le> maxR \<longrightarrow> isl (cleanup k) \<Longrightarrow>
     \<exists>e. executeCleanupLoop cleanup maxR attempt lastError
           = Inl (if attempt \<le> maxR then Some e else lastError)"
proof (induction cleanup maxR attempt lastError rule: executeCleanupLoop.induct)
  case (1 cleanup maxR attempt lastError)
  show ?case
  proof (cases "attempt \<le> maxR")
    case False
    then show ?thesis by simp
  next
    case True
    with "1.prems" obtain e where e: "cleanup attempt = Inl e"
      by (cases "cleanup attempt") auto
    have "\<forall>k. attempt + 1 \<le> k \<and> k \<le> maxR \<longrightarrow> isl (cleanup k)"
      using "1.prems" by simp
    from "1.IH" [OF True e this] obtain e' where
      "executeCleanupLoop cleanup maxR (attempt + 1) (Some e)
         = Inl (if attempt + 1 \<le> maxR then Some e' else Some e)"
      by blast
    then show ?thesis
      using True e by (subst executeCleanupLoop.simps) auto
  qed
qed

lemma loop_first_success:
  "attempt \<le> k \<Longrightarrow> k \<le> maxR \<Longrightarrow> cleanup k = Inr r
     \<Longrightarrow> \<forall>j. attempt \<le> j \<and> j < k \<longrightarrow> isl (cleanup j)
     \<Longrightarrow> executeCleanupLoop cleanup maxR attempt lastError = Inr r"
proof (induction cleanup maxR attempt lastError rule: executeCleanupLoop.induct)
  case (1 cleanup maxR attempt lastError)
  show ?case
  proof (cases "attempt = k")
    case True
    with "1.prems" show ?thesis
      by (subst executeCleanupLoop.simps) simp
  next
    case False
    with "1.prems" have lt: "attempt < k" by simp
    with "1.prems" obtain e where e: "cleanup attempt = Inl e"
      by (cases "cleanup attempt") auto
    have le: "attempt \<le> maxR" using lt "1.prems" by simp
    have "executeCleanupLoop cleanup maxR (attempt + 1) (Some e) = Inr r"
      using "1.prems" lt by (intro "1.IH" [OF le e]) auto
    then show ?thesis
      using le e by (subst executeCleanupLoop.simps) simp
  qed
qed

text \<open>
  Claim C9, as amended. When every attempt of a scheduled cleanup cycle throws (and at
  least one attempt is made), the cycle leaves \<open>totalRuns\<close>, \<open>totalTasksCleaned\<close> and
  \<open>totalFilesCleaned\<close> unchanged and adds one to \<open>totalErrors\<close>. When some attempt
  succeeds, the first such attempt ends the cycle and the statistics are updated from its
  result: one more run, its cleaned tasks, its deleted files and the number of its errors
  are added.
\<close>

theorem failed_cycle_counts_one_error:
  "(1 \<le> maxRetries cs \<and> (\<forall>k. 1 \<le> k \<and> k \<le> maxRetries cs \<longrightarrow> isl (cleanup k)) \<longrightarrow>
      runCleanupCycle cleanup startTime now cs
        = (None, cs\<lparr> cleanupStats :=
                        (cleanupStats cs)\<lparr> totalErrors := totalErrors (cleanupStats cs) + 1 \<rparr> \<rparr>))
   \<and> (1 \<le> k \<and> k \<le> maxRetries cs \<and> cleanup k = Inr r
        \<and> (\<forall>j. 1 \<le> j \<and> j < k \<longrightarrow> isl (cleanup j)) \<longrightarrow>
      runCleanupCycle cleanup startTime now cs
        = (None, cs\<lparr> cleanupStats :=
                        (cleanupStats cs)
                          \<lparr> totalRuns := totalRuns (cleanupStats cs) + 1,
                            totalTasksCleaned := totalTasksCleaned (cleanupStats cs) + cleanedTasks r,
                            totalFilesCleaned := totalFilesCleaned (cleanupStats cs) + deletedFiles r,
                            totalErrors := totalErrors (cleanupStats cs) + length (cleanupErrors r),
                            lastRunDuration := now - startTime \<rparr>,
                      lastCleanupTime := Some now \<rparr>))"
proof (intro conjI impI)
  assume a: "1 \<le> maxRetries cs \<and> (\<forall>k. 1 \<le> k \<and> k \<le> maxRetries cs \<longrightarrow> isl (cleanup k))"
  then obtain e where "executeCleanupLoop cleanup (maxRetries cs) 1 None = Inl (Some e)"
    using loop_all_throw [of 1 "maxRetries cs" cleanup None] by auto
  then show "runCleanupCycle cleanup startTime now cs
        = (None, cs\<lparr> cleanupStats :=
                        (cleanupStats cs)\<lparr> totalErrors := totalErrors (cleanupStats cs) + 1 \<rparr> \<rparr>)"
    by (simp add: runCleanupCycle_def executeCleanupWithRetry_def)
next
  assume a: "1 \<le> k \<and> k \<le> maxRetries cs \<and> cleanup k = Inr r
        \<and> (\<forall>j. 1 \<le> j \<and> j < k \<longrightarrow> isl (cleanup j))"
  then have "executeCleanupLoop cleanup (maxRetries cs) 1 None = Inr r"
    by (intro loop_first_success [of 1 k]) auto
  then show "runCleanupCycle cleanup startTime now cs
        = (None, cs\<lparr> cleanupStats :=
                        (cleanupStats cs)
                          \<lparr> totalRuns := totalRuns (cleanupStats cs) + 1,
                            totalTasksCleaned := totalTasksCleaned (cleanupStats cs) + cleanedTasks r,
                            totalFilesCleaned := totalFilesCleaned (cleanupStats cs) + deletedFiles r,
                            totalErrors := totalErrors (cleanupStats cs) + length (cleanupErrors r),
                            lastRunDuration := now - startTime \<rparr>,
                      lastCleanupTime := Some now \<rparr>)"
    by (simp add: runCleanupCycle_def executeCleanupWithRetry_def CleanupService_updateStats_def)
qed

theorem failed_cycle_counts_one_error_witness:
  "(1 \<le> maxRetries demo_service
      \<and> isl (always_throws 1) \<and> isl (always_throws 2) \<and> isl (always_throws 3)
      \<and> runCleanupCycle always_throws 0 30000 demo_service
          = (None, demo_service\<lparr> cleanupStats :=
                       (cleanupStats demo_service)\<lparr> totalErrors := 2 \<rparr> \<rparr>))
   \<and> ((1::int) \<le> 3 \<and> 3 \<le> maxRetries demo_service
      \<and> third_time_lucky 3
          = Inr \<lparr> cleanedTasks = 5, deletedFiles = 4, cleanupErrors = [(''f.png'', ''denied'')] \<rparr>
      \<and> isl (third_time_lucky 1) \<and> isl (third_time_lucky 2)
      \<and> runCleanupCycle third_time_lucky 0 30000 demo_service
          = (None, demo_service\<lparr> cleanupStats :=
                       \<lparr> totalRuns = 5, totalTasksCleaned = 15, totalFilesCleaned = 13,
                         totalErrors = 2, lastRunDuration = 30000 \<rparr>,
                     lastCleanupTime := Some 30000 \<rparr>))"
proof -
  let ?r = "\<lparr> cleanedTasks = 5, deletedFiles = 4, cleanupErrors = [(''f.png'', ''denied'')] \<rparr>"
  have h1: "1 \<le> maxRetries demo_service
      \<and> (\<forall>k. 1 \<le> k \<and> k \<le> maxRetries demo_service \<longrightarrow> isl (always_throws k))"
    by (simp add: demo_service_def always_throws_def)
  have h2: "(1::int) \<le> 3 \<and> 3 \<le> maxRetries demo_service \<and> third_time_lucky 3 = Inr ?r
      \<and> (\<forall>j. 1 \<le> j \<and> j < 3 \<longrightarrow> isl (third_time_lucky j))"
    by (simp add: demo_service_def third_time_lucky_def)
  from failed_cycle_counts_one_error
         [where cs = demo_service and cleanup = always_throws and startTime = 0 and now = 30000,
          THEN conjunct1, rule_format, OF h1]
       failed_cycle_counts_one_error
         [where cs = demo_service and cleanup = third_time_lucky and startTime = 0
            and now = 30000 and k = 3 and r = ?r,
          THEN conjunct2, rule_format, OF h2]
       h1 h2
  show ?thesis
    by (simp add: demo_service_def always_throws_def third_time_lucky_def)
qed

text \<open>
  The claim as stated fails on \<open>totalErrors\<close>: a cycle whose three attempts all throw
  raises it from 1 to 2.
\<close>

theorem failed_cycle_changes_totalErrors:
  "totalErrors (cleanupStats demo_service) = 1
   \<and> totalErrors (cleanupStats (snd (runCleanupCycle always_throws 0 30000 demo_service))) = 2
   \<and> totalErrors (cleanupStats (snd (runCleanupCycle always_throws 0 30000 demo_service)))
       \<noteq> totalErrors (cleanupStats demo_service)"
  by code_simp

section \<open>Which submissions are rejected\<close>

lemma object_check: "(\<not> truthy v \<or> typeof v \<noteq> ''object'') = (\<not> is_object v)"
  by (cases v) simp_all

lemma number_check:
  "(truthy v \<and> (typeof v \<noteq> ''number'' \<or> num_le_zero v)) = (truthy v \<and> \<not> positive_number v)"
  by (cases v) auto

lemma get_prop_non_object: "\<not> (truthy cfg \<and> typeof cfg = ''object'') \<Longrightarrow> get_prop cfg k = JUndefined"
  by (cases cfg) simp_all

lemma optionErrors_alt:
  "optionErrors cfg =
     (if \<not> is_object (get_prop cfg ''option'')
      then [''Config.option is required and must be an object''] else [])"
  unfolding optionErrors_def object_check by (rule refl)

lemma widthErrors_alt:
  "widthErrors cfg =
     (if truthy (get_prop cfg ''width'') \<and> \<not> positive_number (get_prop cfg ''width'')
      then [''Config.width must be a positive number''] else [])"
  unfolding widthErrors_def number_check by (rule refl)

lemma heightErrors_alt:
  "heightErrors cfg =
     (if truthy (get_prop cfg ''height'') \<and> \<not> positive_number (get_prop cfg ''height'')
      then [''Config.height must be a positive number''] else [])"
  unfolding heightErrors_def number_check by (rule refl)

lemma errors_validateConfig:
  "truthy cfg \<and> typeof cfg = ''object'' \<Longrightarrow>
     errors (validateConfig cfg) =
       (if \<not> is_object (get_prop cfg ''option'')
        then [''Config.option is required and must be an object''] else [])
       @ (if truthy (get_prop cfg ''width'') \<and> \<not> positive_number (get_prop cfg ''width'')
          then [''Config.width must be a positive number''] else [])
       @ (if truthy (get_prop cfg ''height'') \<and> \<not> positive_number (get_prop cfg ''height'')
          then [''Config.height must be a positive number''] else [])
       @ (if truthy (get_prop cfg ''type'') \<and> get_prop cfg ''type'' \<notin> set supportedTypes
          then [''Config.type must be one of: png, jpeg, svg, pdf''] else [])"
  unfolding validateConfig_def Let_def optionErrors_alt widthErrors_alt heightErrors_alt
    typeErrors_def
  by simp

lemma valid_iff: "valid (validateConfig cfg) = (\<not> code_violation cfg)"
proof (cases "truthy cfg \<and> typeof cfg = ''object''")
  case True
  have "valid (validateConfig cfg) = (errors (validateConfig cfg) = [])"
    using True by (simp add: validateConfig_def Let_def)
  also have "\<dots> = (\<not> code_violation cfg)"
    unfolding errors_validateConfig [OF True] code_violation_def by auto
  finally show ?thesis .
next
  case False
  then have "get_prop cfg ''option'' = JUndefined"
    by (rule get_prop_non_object)
  with False show ?thesis
    by (auto simp: validateConfig_def code_violation_def)
qed

text \<open>
  Claim C6, as amended. \<open>createTask\<close> fails with the error "Invalid task config: "
  followed by the violations, joined by ", ", exactly when \<open>config.option\<close> is missing or
  not an object, or \<open>width\<close> or \<open>height\<close> is truthy (present, and not \<open>0\<close>, \<open>NaN\<close>, the
  empty string, \<open>false\<close> or \<open>null\<close>) and not a positive number, or \<open>type\<close> is truthy and
  not one of png, jpeg, svg, pdf; the list names each violated rule once, in that order.
  For every other configuration (given a fresh, non-empty identifier) it constructs a pending
  task record, enqueues it with one admission attempt, counts the creation and returns the
  record as the queue then holds it.
\<close>

theorem createTask_rejects_exactly_truthy_violations:
  "valid (validateConfig cfg) = (\<not> code_violation cfg)
   \<and> (code_violation cfg \<longrightarrow>
        createTask uuid now cfg tm
          = (Inl (Error (''Invalid task config: '' @ join '', '' (errors (validateConfig cfg)))), tm))
   \<and> (truthy cfg \<and> typeof cfg = ''object'' \<longrightarrow>
        errors (validateConfig cfg) =
          (if \<not> is_object (get_prop cfg ''option'')
           then [''Config.option is required and must be an object''] else [])
          @ (if truthy (get_prop cfg ''width'') \<and> \<not> positive_number (get_prop cfg ''width'')
             then [''Config.width must be a positive number''] else [])
          @ (if truthy (get_prop cfg ''height'') \<and> \<not> positive_number (get_prop cfg ''height'')
             then [''Config.height must be a positive number''] else [])
          @ (if truthy (get_prop cfg ''type'') \<and> get_prop cfg ''type'' \<notin> set supportedTypes
             then [''Config.type must be one of: png, jpeg, svg, pdf''] else []))
   \<and> (\<not> code_violation cfg \<and> uuid \<noteq> [] \<and> \<not> hasTask (taskQueue tm) uuid \<longrightarrow>
        status (Task_new uuid now cfg) = Pending
        \<and> createTask uuid now cfg tm
          = (Inr (held (submitted uuid now cfg (taskQueue tm)) (Task_new uuid now cfg)),
             tm\<lparr> taskQueue := submitted uuid now cfg (taskQueue tm),
                 metricsService := recordTaskCreated (metricsService tm) \<rparr>))"
proof (intro conjI impI)
  show "valid (validateConfig cfg) = (\<not> code_violation cfg)"
    by (rule valid_iff)
next
  assume "code_violation cfg"
  then have "\<not> valid (validateConfig cfg)"
    by (simp add: valid_iff)
  then show "createTask uuid now cfg tm
          = (Inl (Error (''Invalid task config: '' @ join '', '' (errors (validateConfig cfg)))), tm)"
    by (simp add: createTask_def Let_def)
next
  assume "truthy cfg \<and> typeof cfg = ''object''"
  then show "errors (validateConfig cfg) =
          (if \<not> is_object (get_prop cfg ''option'')
           then [''Config.option is required and must be an object''] else [])
          @ (if truthy (get_prop cfg ''width'') \<and> \<not> positive_number (get_prop cfg ''width'')
             then [''Config.width must be a positive number''] else [])
          @ (if truthy (get_prop cfg ''height'') \<and> \<not> positive_number (get_prop cfg ''height'')
             then [''Config.height must be a positive number''] else [])
          @ (if truthy (get_prop cfg ''type'') \<and> get_prop cfg ''type'' \<notin> set supportedTypes
             then [''Config.type must be one of: png, jpeg, svg, pdf''] else [])"
    by (rule errors_validateConfig)
next
  assume a: "\<not> code_violation cfg \<and> uuid \<noteq> [] \<and> \<not> hasTask (taskQueue tm) uuid"
  show "status (Task_new uuid now cfg) = Pending"
    by (simp add: Task_new_def)
  have "valid (validateConfig cfg)"
    using a by (simp add: valid_iff)
  moreover have "taskId (Task_new uuid now cfg) = uuid"
    by (simp add: Task_new_def)
  ultimately show "createTask uuid now cfg tm
          = (Inr (held (submitted uuid now cfg (taskQueue tm)) (Task_new uuid now cfg)),
             tm\<lparr> taskQueue := submitted uuid now cfg (taskQueue tm),
                 metricsService := recordTaskCreated (metricsService tm) \<rparr>)"
    using a by (simp add: createTask_def enqueue_def submitted_def Let_def)
qed

theorem createTask_rejects_exactly_truthy_violations_witness:
  "(code_violation (JObject [(''type'', JStr ''gif''), (''width'', JNum (- 1))])
      \<and> createTask ''t1'' 0 (JObject [(''type'', JStr ''gif''), (''width'', JNum (- 1))]) demo_manager
          = (Inl (Error (''Invalid task config: Config.option is required and must be an object, ''
                         @ ''Config.width must be a positive number, ''
                         @ ''Config.type must be one of: png, jpeg, svg, pdf'')), demo_manager))
   \<and> (\<not> code_violation demo_config \<and> ''t1'' \<noteq> [] \<and> \<not> hasTask (taskQueue demo_manager) ''t1''
      \<and> createTask ''t1'' 0 demo_config demo_manager
          = (Inr (held (submitted ''t1'' 0 demo_config (taskQueue demo_manager))
                    (Task_new ''t1'' 0 demo_config)),
             demo_manager\<lparr> taskQueue := submitted ''t1'' 0 demo_config (taskQueue demo_manager),
                 metricsService := recordTaskCreated (metricsService demo_manager) \<rparr>))"
proof -
  let ?bad = "JObject [(''type'', JStr ''gif''), (''width'', JNum (- 1))]"
  have h1: "code_violation ?bad"
    by (simp add: code_violation_def)
  have o: "truthy ?bad \<and> typeof ?bad = ''object''"
    by simp
  have h2: "\<not> code_violation demo_config \<and> ''t1'' \<noteq> [] \<and> \<not> hasTask (taskQueue demo_manager) ''t1''"
    by (simp add: code_violation_def demo_config_def supportedTypes_def hasTask_def getTask_def
          Map_has_def demo_manager_def demo_queue_def TaskQueue_new_def)
  note sub = createTask_rejects_exactly_truthy_violations
  have e: "errors (validateConfig ?bad)
             = [''Config.option is required and must be an object'',
                ''Config.width must be a positive number'',
                ''Config.type must be one of: png, jpeg, svg, pdf'']"
    using sub [where cfg = ?bad, THEN conjunct2, THEN conjunct2, THEN conjunct1, rule_format,
               OF o]
    by (simp add: supportedTypes_def)
  have a: "createTask ''t1'' 0 ?bad demo_manager
          = (Inl (Error (''Invalid task config: Config.option is required and must be an object, ''
                         @ ''Config.width must be a positive number, ''
                         @ ''Config.type must be one of: png, jpeg, svg, pdf'')), demo_manager)"
    using sub [where cfg = ?bad and uuid = "''t1''" and now = 0 and tm = demo_manager,
               THEN conjunct2, THEN conjunct1, rule_format, OF h1]
    by (simp add: e)
  from sub [where cfg = demo_config and uuid = "''t1''" and now = 0 and tm = demo_manager,
            THEN conjunct2, THEN conjunct2, THEN conjunct2, rule_format, OF h2]
       h1 h2 a
  show ?thesis
    by simp
qed

text \<open>
  The claim as stated fails: a configuration with a proper \<open>option\<close> and \<open>width: 0\<close> has a
  width that is present and not a positive number, yet it is valid for the validator and
  \<open>createTask\<close> returns the task (already admitted, since the queue had room).
\<close>

theorem zero_width_is_accepted:
  "spec_violation demo_zero_width
   \<and> valid (validateConfig demo_zero_width)
   \<and> fst (createTask ''t1'' 0 demo_zero_width demo_manager)
       = Inr ((Task_new ''t1'' 0 demo_zero_width)\<lparr> status := Processing, startedAt := Some 0 \<rparr>)"
  by code_simp

section \<open>What happens to a retried task next\<close>

text \<open>
  The admission attempt that ends \<open>failTask\<close> finds the slot the failed task has just
  freed, and the retried task at the head of the pending deque: within the concurrency
  bound, a task that is retried is back in the in-flight map, in state processing with a
  new start instant, when \<open>failTask\<close> returns.
\<close>

lemma length_Map_delete_present:
  "Map_get m k = Some v \<Longrightarrow> length (Map_delete k m) < length m"
proof -
  assume "Map_get m k = Some v"
  then have "(k, v) \<in> set m"
    by (rule Map_get_in_set)
  then have "length (filter (\<lambda>kv. fst kv \<noteq> k) m) < length m"
    by (intro length_filter_less [where x = "(k, v)"]) simp_all
  then show ?thesis
    by (simp add: Map_delete_def)
qed

lemma failTask_retry_readmits:
  assumes "Map_get (processingTasks q) tid = Some t"
    and "retryCount t < retryAttempts (options q)"
    and "within_limit q"
  shows "snd (failTask now tid err q) =
           startProcessing now (Task_retry t)
             (emit (TaskRetry (Task_retry t))
                (q\<lparr> processingTasks := Map_delete tid (processingTasks q) \<rparr>))"
proof -
  have "Map_size (Map_delete tid (processingTasks q)) < maxConcurrent (options q)"
    using length_Map_delete_present [OF assms(1)] assms(3)
    by (simp add: within_limit_def Map_size_def)
  then show ?thesis
    using assms(1,2)
    by (simp add: failTask_def retryBranch_def processNext_def Let_def emit_def)
qed

section \<open>Failure handling: retry or final failure\<close>

text \<open>Lookups after a deletion and after a store, and the size of the map.\<close>

lemma Map_get_Map_delete: "Map_get (Map_delete k m) = (Map_get m)(k := None)"
proof
  fix x
  show "Map_get (Map_delete k m) x = ((Map_get m)(k := None)) x"
    by (induction m) (auto simp: Map_get_def Map_delete_def)
qed

lemma Map_get_Map_set: "Map_get (Map_set k v m) = (Map_get m)(k \<mapsto> v)"
proof
  fix x
  show "Map_get (Map_set k v m) x = ((Map_get m)(k \<mapsto> v)) x"
    by (induction m) (auto simp: Map_get_def)
qed

lemma Map_has_keys: "Map_has m k = (k \<in> fst ` set m)"
  by (simp add: Map_has_def map_of_eq_None_iff)

lemma length_Map_delete_distinct:
  "distinct (map fst m) \<Longrightarrow> k \<in> fst ` set m \<Longrightarrow> Suc (length (Map_delete k m)) = length m"
proof (induction m)
  case Nil
  then show ?case by simp
next
  case (Cons kv m)
  show ?case
  proof (cases "fst kv = k")
    case True
    with Cons.prems have "k \<notin> fst ` set m" by auto
    then have "filter (\<lambda>kv. fst kv \<noteq> k) m = m"
      by (intro filter_True) auto
    with True show ?thesis by (simp add: Map_delete_def)
  next
    case False
    with Cons show ?thesis by (auto simp: Map_delete_def)
  qed
qed

lemma length_Map_set_fresh: "k \<notin> fst ` set m \<Longrightarrow> length (Map_set k v m) = Suc (length m)"
  by (induction m) auto

text \<open>Every call keeps the ids of the waiting tasks apart from the in-flight keys.\<close>

lemma ids_apart_emit [simp]: "ids_apart (emit e q) = ids_apart q"
  by (simp add: ids_apart_def)

lemma ids_apart_processNext:
  assumes "ids_apart q"
  shows "ids_apart (processNext now q)"
proof (cases "Map_size (processingTasks q) \<ge> maxConcurrent (options q) \<or> pendingQueue q = []")
  case True
  with assms show ?thesis by (auto simp: processNext_def)
next
  case False
  then obtain h rest where p: "pendingQueue q = h # rest"
    by (cases "pendingQueue q") auto
  from assms p have d: "distinct (map taskId rest)" and nh: "taskId h \<notin> taskId ` set rest"
    and ap: "\<forall>t \<in> set rest. taskId t \<notin> fst ` set (processingTasks q)"
    by (auto simp: ids_apart_def list_all_iff Map_has_keys)
  have "\<forall>t \<in> set rest. taskId t \<notin> insert (taskId h) (fst ` set (processingTasks q))"
    using nh ap by (auto simp: image_iff)
  with d have "ids_apart (startProcessing now h (q\<lparr> pendingQueue := rest \<rparr>))"
    by (simp add: ids_apart_def startProcessing_def Let_def Task_start_def Map_has_keys
          keys_Map_set list_all_iff)
  with False p show ?thesis
    by (simp add: processNext_def)
qed

lemma ids_apart_drop:
  "ids_apart q \<Longrightarrow> pendingQueue q' = pendingQueue q
     \<Longrightarrow> processingTasks q' = Map_delete tid (processingTasks q) \<Longrightarrow> ids_apart q'"
  by (auto simp: ids_apart_def Map_has_keys keys_Map_delete list_all_iff)

lemma find_None_ids: "find (\<lambda>t. taskId t = tid) ts = None \<Longrightarrow> tid \<notin> taskId ` set ts"
  by (auto simp: find_None_iff)

lemma ids_apart_enqueue: "ids_apart q \<Longrightarrow> ids_apart (snd (enqueue now t q))"
proof (cases "taskId t = [] \<or> hasTask q (taskId t)")
  case True
  assume "ids_apart q"
  with True show ?thesis by (auto simp: enqueue_def)
next
  case False
  assume a: "ids_apart q"
  from False have np: "\<not> Map_has (processingTasks q) (taskId t)"
    and nf: "find (\<lambda>u. taskId u = taskId t) (pendingQueue q) = None"
    by (auto simp: hasTask_def getTask_def Map_has_def Map_get_def split: if_splits)
  have "taskId t \<notin> taskId ` set (pendingQueue q)"
    using nf by (rule find_None_ids)
  with a np have "ids_apart (emit (TaskEnqueued t) (q\<lparr> pendingQueue := pendingQueue q @ [t] \<rparr>))"
    by (auto simp: ids_apart_def)
  then show ?thesis
    using False by (simp add: enqueue_def ids_apart_processNext)
qed

lemma ids_apart_completeTask:
  assumes "ids_apart q"
  shows "ids_apart (snd (completeTask now tid url fname q))"
proof (cases "Map_get (processingTasks q) tid")
  case None
  with assms show ?thesis by (simp add: completeTask_def)
next
  case (Some t)
  let ?t' = "Task_complete now url fname t"
  let ?q3 = "emit (TaskCompleted ?t') (updateStats ?t'
     (q\<lparr> processingTasks := Map_delete tid (processingTasks q),
         completedTasks := Map_set tid ?t' (completedTasks q) \<rparr>))"
  have "ids_apart ?q3"
    by (rule ids_apart_drop [OF assms]) simp_all
  then show ?thesis
    using Some by (simp add: completeTask_def Let_def ids_apart_processNext)
qed

lemma ids_apart_failTask:
  assumes "ids_apart q" and "inflight_wf q"
  shows "ids_apart (snd (failTask now tid err q))"
proof (cases "Map_get (processingTasks q) tid")
  case None
  with assms show ?thesis by (simp add: failTask_def)
next
  case (Some t)
  then have mem: "(tid, t) \<in> set (processingTasks q)"
    by (rule Map_get_in_set)
  with assms(2) have own: "taskId t = tid"
    by (auto simp: inflight_wf_def list_all_iff)
  have has: "Map_has (processingTasks q) tid"
    using Some by (simp add: Map_has_def Map_get_def)
  have "tid \<notin> taskId ` set (pendingQueue q)"
    using assms(1) has by (auto simp: ids_apart_def list_all_iff)
  then have "ids_apart (retryBranch tid t q)"
    using assms(1) own
    by (auto simp: ids_apart_def retryBranch_def Let_def Task_retry_def Map_has_keys
          keys_Map_delete list_all_iff)
  moreover have "ids_apart (failBranch now tid err t q)"
    by (rule ids_apart_drop [OF assms(1)]) (simp_all add: failBranch_def Let_def)
  ultimately show ?thesis
    using Some by (simp add: failTask_def ids_apart_processNext)
qed

lemma ids_apart_failTimeouts:
  "ids_apart q \<Longrightarrow> inflight_wf q \<Longrightarrow> ids_apart (snd (failTimeouts now tids q))"
proof (induction tids arbitrary: q)
  case Nil
  then show ?case by simp
next
  case (Cons tid tids)
  let ?q1 = "emit (TaskTimeout (Map_get (processingTasks q) tid)) q"
  let ?r = "failTask now tid ''Task timeout'' ?q1"
  have a: "ids_apart (snd ?r)"
    using Cons.prems by (intro ids_apart_failTask) simp_all
  have w: "inflight_wf (snd ?r)"
    using Cons.prems by (intro inflight_wf_failTask) simp
  obtain e q' where r: "?r = (e, q')" by (cases ?r)
  show ?case
    using a w r Cons.IH [of q'] by (cases e) simp_all
qed

lemma ids_apart_cleanup:
  "ids_apart q \<Longrightarrow> ids_apart (snd (cleanupExpiredTasks now days q))"
  by (auto simp: cleanupExpiredTasks_def Let_def ids_apart_def split: prod.splits)

lemma ids_apart_apply_op: "ids_apart q \<Longrightarrow> inflight_wf q \<Longrightarrow> ids_apart (apply_op op q)"
proof (cases op)
  case (Pair now o')
  assume a: "ids_apart q" and w: "inflight_wf q"
  show ?thesis
  proof (cases o')
    case (Enqueue t)
    with Pair a show ?thesis by (simp add: ids_apart_enqueue)
  next
    case ProcessNext
    with Pair a show ?thesis by (simp add: ids_apart_processNext)
  next
    case (CompleteTask x y z)
    with Pair a show ?thesis by (simp add: ids_apart_completeTask)
  next
    case (FailTask x y)
    with Pair a w show ?thesis by (simp add: ids_apart_failTask)
  next
    case CheckTimeouts
    with Pair a w show ?thesis by (simp add: checkTimeouts_def ids_apart_failTimeouts)
  next
    case (CleanupExpiredTasks d)
    with Pair a show ?thesis by (simp add: ids_apart_cleanup)
  next
    case Pause
    with Pair a show ?thesis by (simp add: pause_def ids_apart_def)
  next
    case Resume
    have "ids_apart (q\<lparr>timeoutCheckInterval := True\<rparr>)"
      using a by (simp add: ids_apart_def)
    with Pair Resume show ?thesis by (simp add: resume_def ids_apart_processNext)
  qed
qed

lemma queue_wf_apply_op: "queue_wf q \<Longrightarrow> queue_wf (apply_op op q)"
  by (simp add: queue_wf_def within_limit_apply_op inflight_wf_apply_op ids_apart_apply_op)

lemma queue_wf_run: "queue_wf q \<Longrightarrow> queue_wf (run ops q)"
  unfolding run_def by (induction ops arbitrary: q) (simp_all add: queue_wf_apply_op)

lemma queue_wf_new: "0 \<le> maxConcurrent (options (TaskQueue_new raw)) \<Longrightarrow> queue_wf (TaskQueue_new raw)"
  by (simp add: queue_wf_def within_limit_def inflight_wf_def ids_apart_def TaskQueue_new_def
        Map_size_def)


lemma failBranch_not_in_flight:
  assumes "queue_wf q" and "Map_get (processingTasks q) tid = Some t"
  shows "\<not> Map_has (processingTasks (processNext now (failBranch now tid err t q))) tid"
proof -
  let ?qe = "failBranch now tid err t q"
  have keys: "fst ` set (processingTasks ?qe) = fst ` set (processingTasks q) - {tid}"
    by (simp add: failBranch_def Let_def keys_Map_delete)
  have has: "Map_has (processingTasks q) tid"
    using assms(2) by (simp add: Map_has_def Map_get_def)
  have pend: "pendingQueue ?qe = pendingQueue q"
    by (simp add: failBranch_def Let_def)
  have "tid \<notin> taskId ` set (pendingQueue q)"
    using assms(1) has by (auto simp: queue_wf_def ids_apart_def list_all_iff)
  then have "tid \<notin> fst ` set (processingTasks (processNext now ?qe))"
    using keys pend
    by (auto simp: processNext_def startProcessing_def Let_def Task_start_def keys_Map_set
             split: list.splits)
  then show ?thesis
    by (simp add: Map_has_keys)
qed

text \<open>
  Claim C2, as amended. Every state reached from a fresh queue with \<open>maxConcurrent \<ge> 0\<close>
  is well formed. For an id whose record \<open>t\<close> is in the in-flight map:

  \<^item> with \<open>retryCount t < retryAttempts\<close>, \<open>failTask\<close> increments the retry count, sets
    the state to pending, clears the error, removes the entry from the in-flight map, pushes
    the record at the head of the pending deque and emits \<open>taskRetry\<close> (this is the state
    a \<open>taskRetry\<close> listener sees), and then makes one admission attempt. In a well-formed
    state that attempt re-admits the same record at once: when \<open>failTask\<close> returns the
    record is in the in-flight map again, in state processing with \<open>startedAt = now\<close> and
    the incremented retry count, the in-flight count and the pending deque are as before,
    and \<open>taskRetry\<close> and \<open>taskStarted\<close> have been emitted.
  \<^item> otherwise \<open>failTask\<close> sets the state to failed, the error to the reason and
    \<open>completedAt\<close> to now, removes the entry from the in-flight map, stores the record in
    the completed archive, counts the failure and emits \<open>taskFailed\<close>, and then makes one
    admission attempt. In a well-formed state the record is, on return, in the archive and
    not in flight.

  In every run from a fresh queue with \<open>retryAttempts \<ge> 0\<close> that submits freshly
  constructed tasks, every record the queue holds has \<open>retryCount \<le> retryAttempts\<close>.
\<close>

theorem failTask_retries_then_readmits:
  "(0 \<le> maxConcurrent (options (TaskQueue_new raw)) \<longrightarrow> queue_wf (run ops (TaskQueue_new raw)))
   \<and> (Map_get (processingTasks q) tid = Some t \<and> retryCount t < retryAttempts (options q) \<longrightarrow>
        failTask now tid reason q = (None, processNext now (retryBranch tid t q))
        \<and> Map_get (processingTasks (retryBranch tid t q)) = (Map_get (processingTasks q))(tid := None)
        \<and> pendingQueue (retryBranch tid t q)
            = t\<lparr> retryCount := retryCount t + 1, status := Pending, error := None \<rparr> # pendingQueue q
        \<and> emitted (retryBranch tid t q)
            = emitted q @ [TaskRetry (t\<lparr> retryCount := retryCount t + 1, status := Pending,
                                        error := None \<rparr>)]
        \<and> completedTasks (retryBranch tid t q) = completedTasks q
        \<and> stats (retryBranch tid t q) = stats q)
   \<and> (queue_wf q \<and> Map_get (processingTasks q) tid = Some t
        \<and> retryCount t < retryAttempts (options q) \<longrightarrow>
        Map_get (processingTasks (snd (failTask now tid reason q)))
          = (Map_get (processingTasks q))
              (tid \<mapsto> t\<lparr> retryCount := retryCount t + 1, status := Processing, error := None,
                         startedAt := Some now \<rparr>)
        \<and> Map_size (processingTasks (snd (failTask now tid reason q)))
            = Map_size (processingTasks q)
        \<and> pendingQueue (snd (failTask now tid reason q)) = pendingQueue q
        \<and> completedTasks (snd (failTask now tid reason q)) = completedTasks q
        \<and> stats (snd (failTask now tid reason q)) = stats q
        \<and> emitted (snd (failTask now tid reason q))
            = emitted q
              @ [TaskRetry (t\<lparr> retryCount := retryCount t + 1, status := Pending, error := None \<rparr>),
                 TaskStarted (t\<lparr> retryCount := retryCount t + 1, status := Processing,
                                error := None, startedAt := Some now \<rparr>)])
   \<and> (Map_get (processingTasks q) tid = Some t \<and> \<not> retryCount t < retryAttempts (options q) \<longrightarrow>
        failTask now tid reason q = (None, processNext now (failBranch now tid reason t q))
        \<and> Map_get (processingTasks (failBranch now tid reason t q))
            = (Map_get (processingTasks q))(tid := None)
        \<and> Map_get (completedTasks (failBranch now tid reason t q))
            = (Map_get (completedTasks q))
                (tid \<mapsto> t\<lparr> status := Failed, error := Some reason, completedAt := Some now \<rparr>)
        \<and> pendingQueue (failBranch now tid reason t q) = pendingQueue q
        \<and> stats (failBranch now tid reason t q)
            = (stats q)\<lparr> totalFailed := totalFailed (stats q) + 1 \<rparr>
        \<and> emitted (failBranch now tid reason t q)
            = emitted q @ [TaskFailed (t\<lparr> status := Failed, error := Some reason,
                                         completedAt := Some now \<rparr>)])
   \<and> (queue_wf q \<and> Map_get (processingTasks q) tid = Some t
        \<and> \<not> retryCount t < retryAttempts (options q) \<longrightarrow>
        \<not> Map_has (processingTasks (snd (failTask now tid reason q))) tid
        \<and> getTask (snd (failTask now tid reason q)) tid
            = Some (t\<lparr> status := Failed, error := Some reason, completedAt := Some now \<rparr>)
        \<and> Map_get (completedTasks (snd (failTask now tid reason q)))
            = (Map_get (completedTasks q))
                (tid \<mapsto> t\<lparr> status := Failed, error := Some reason, completedAt := Some now \<rparr>)
        \<and> stats (snd (failTask now tid reason q))
            = (stats q)\<lparr> totalFailed := totalFailed (stats q) + 1 \<rparr>)
   \<and> (0 \<le> retryAttempts (options (TaskQueue_new raw))
        \<and> list_all (\<lambda>t. retryCount t = 0) (enqueued ops) \<longrightarrow>
      list_all (\<lambda>t. retryCount t \<le> retryAttempts (options (TaskQueue_new raw)))
        (all_tasks (run ops (TaskQueue_new raw))))"
proof (intro conjI impI)
  assume "0 \<le> maxConcurrent (options (TaskQueue_new raw))"
  then show "queue_wf (run ops (TaskQueue_new raw))"
    by (intro queue_wf_run queue_wf_new)
next
  assume a: "Map_get (processingTasks q) tid = Some t \<and> retryCount t < retryAttempts (options q)"
  then show "failTask now tid reason q = (None, processNext now (retryBranch tid t q))"
    by (simp add: failTask_def)
  show "Map_get (processingTasks (retryBranch tid t q)) = (Map_get (processingTasks q))(tid := None)"
    by (simp add: retryBranch_def Let_def Map_get_Map_delete)
  show "pendingQueue (retryBranch tid t q)
            = t\<lparr> retryCount := retryCount t + 1, status := Pending, error := None \<rparr> # pendingQueue q"
    by (simp add: retryBranch_def Let_def Task_retry_def)
  show "emitted (retryBranch tid t q)
            = emitted q @ [TaskRetry (t\<lparr> retryCount := retryCount t + 1, status := Pending,
                                        error := None \<rparr>)]"
    by (simp add: retryBranch_def Let_def Task_retry_def)
  show "completedTasks (retryBranch tid t q) = completedTasks q"
    by (simp add: retryBranch_def Let_def)
  show "stats (retryBranch tid t q) = stats q"
    by (simp add: retryBranch_def Let_def)
next
  assume a: "queue_wf q \<and> Map_get (processingTasks q) tid = Some t
        \<and> retryCount t < retryAttempts (options q)"
  let ?t2 = "t\<lparr> retryCount := retryCount t + 1, status := Processing, error := None,
                 startedAt := Some now \<rparr>"
  let ?R = "snd (failTask now tid reason q)"
  from a have mem: "(tid, t) \<in> set (processingTasks q)"
    by (simp add: Map_get_in_set)
  with a have own: "taskId t = tid"
    by (auto simp: queue_wf_def inflight_wf_def list_all_iff)
  have R: "?R = startProcessing now (Task_retry t)
             (emit (TaskRetry (Task_retry t))
                (q\<lparr> processingTasks := Map_delete tid (processingTasks q) \<rparr>))"
    using a by (intro failTask_retry_readmits) (simp_all add: queue_wf_def)
  have t2: "Task_start now (Task_retry t) = ?t2"
    by (rule task.equality) (simp_all add: Task_start_def Task_retry_def)
  have id2: "taskId ?t2 = tid"
    using own by simp
  have p: "processingTasks ?R = Map_set tid ?t2 (Map_delete tid (processingTasks q))"
    unfolding R startProcessing_def Let_def t2 id2 by simp
  show "Map_get (processingTasks ?R) = (Map_get (processingTasks q))(tid \<mapsto> ?t2)"
    unfolding p by (simp add: Map_get_Map_set Map_get_Map_delete)
  have "distinct (map fst (processingTasks q))"
    using a by (simp add: queue_wf_def inflight_wf_def)
  moreover have "tid \<in> fst ` set (processingTasks q)"
    using mem by force
  ultimately have "Suc (length (Map_delete tid (processingTasks q))) = length (processingTasks q)"
    by (rule length_Map_delete_distinct)
  moreover have "length (Map_set tid ?t2 (Map_delete tid (processingTasks q)))
                   = Suc (length (Map_delete tid (processingTasks q)))"
    by (rule length_Map_set_fresh) (simp add: keys_Map_delete)
  ultimately show "Map_size (processingTasks ?R) = Map_size (processingTasks q)"
    unfolding p by (simp add: Map_size_def)
  show "pendingQueue ?R = pendingQueue q"
    unfolding R by (simp add: startProcessing_def Let_def)
  show "completedTasks ?R = completedTasks q"
    unfolding R by (simp add: startProcessing_def Let_def)
  show "stats ?R = stats q"
    unfolding R by (simp add: startProcessing_def Let_def)
  show "emitted ?R
            = emitted q
              @ [TaskRetry (t\<lparr> retryCount := retryCount t + 1, status := Pending, error := None \<rparr>),
                 TaskStarted ?t2]"
    unfolding R startProcessing_def Let_def t2 by (simp add: Task_retry_def)
next
  assume a: "Map_get (processingTasks q) tid = Some t \<and> \<not> retryCount t < retryAttempts (options q)"
  then show "failTask now tid reason q = (None, processNext now (failBranch now tid reason t q))"
    by (simp add: failTask_def)
  show "Map_get (processingTasks (failBranch now tid reason t q))
            = (Map_get (processingTasks q))(tid := None)"
    by (simp add: failBranch_def Let_def Map_get_Map_delete)
  show "Map_get (completedTasks (failBranch now tid reason t q))
            = (Map_get (completedTasks q))
                (tid \<mapsto> t\<lparr> status := Failed, error := Some reason, completedAt := Some now \<rparr>)"
    by (simp add: failBranch_def Let_def Map_get_Map_set Task_fail_def)
  show "pendingQueue (failBranch now tid reason t q) = pendingQueue q"
    by (simp add: failBranch_def Let_def)
  show "stats (failBranch now tid reason t q)
            = (stats q)\<lparr> totalFailed := totalFailed (stats q) + 1 \<rparr>"
    by (simp add: failBranch_def Let_def)
  show "emitted (failBranch now tid reason t q)
            = emitted q @ [TaskFailed (t\<lparr> status := Failed, error := Some reason,
                                         completedAt := Some now \<rparr>)]"
    by (simp add: failBranch_def Let_def Task_fail_def)
next
  assume a: "queue_wf q \<and> Map_get (processingTasks q) tid = Some t
        \<and> \<not> retryCount t < retryAttempts (options q)"
  let ?t' = "t\<lparr> status := Failed, error := Some reason, completedAt := Some now \<rparr>"
  let ?R = "snd (failTask now tid reason q)"
  have R: "?R = processNext now (failBranch now tid reason t q)"
    using a by (simp add: failTask_def)
  show nf: "\<not> Map_has (processingTasks ?R) tid"
    unfolding R using a by (intro failBranch_not_in_flight) simp_all
  have c: "completedTasks ?R = Map_set tid ?t' (completedTasks q)"
    unfolding R
    by (simp add: processNext_def startProcessing_def failBranch_def Let_def Task_fail_def
          split: list.splits)
  show g: "Map_get (completedTasks ?R) = (Map_get (completedTasks q))(tid \<mapsto> ?t')"
    unfolding c by (simp add: Map_get_Map_set)
  have g1: "Map_get (completedTasks ?R) tid = Some ?t'"
    unfolding g by simp
  then have "Map_has (completedTasks ?R) tid"
    by (simp add: Map_has_def Map_get_def)
  with nf g1 show "getTask ?R tid = Some ?t'"
    by (simp add: getTask_def)
  show "stats ?R = (stats q)\<lparr> totalFailed := totalFailed (stats q) + 1 \<rparr>"
    unfolding R by (simp add: failBranch_def Let_def)
next
  let ?q0 = "TaskQueue_new raw"
  assume a: "0 \<le> retryAttempts (options ?q0) \<and> list_all (\<lambda>t. retryCount t = 0) (enqueued ops)"
  have "retry_bounded ?q0"
    by (simp add: retry_bounded_def all_tasks_def TaskQueue_new_def)
  moreover have "list_all (\<lambda>t. retryCount t \<le> retryAttempts (options ?q0)) (enqueued ops)"
    using a by (auto simp: list_all_iff)
  ultimately have "retry_bounded (run ops ?q0)"
    by (rule retry_bounded_run)
  then show "list_all (\<lambda>t. retryCount t \<le> retryAttempts (options ?q0)) (all_tasks (run ops ?q0))"
    by (simp add: retry_bounded_def)
qed

theorem failTask_retries_then_readmits_witness:
  "(0 \<le> maxConcurrent (options (TaskQueue_new
             \<lparr> given_maxConcurrent = Some 2, given_taskTimeout = None,
               given_retryAttempts = Some 1 \<rparr>))
      \<and> queue_wf (demo_pair 1))
   \<and> (Map_get (processingTasks (demo_pair 1)) ''a'' = Some demo_started
      \<and> retryCount demo_started < retryAttempts (options (demo_pair 1))
      \<and> Map_get (processingTasks (retryBranch ''a'' demo_started (demo_pair 1))) ''a'' = None
      \<and> pendingQueue (retryBranch ''a'' demo_started (demo_pair 1))
          = [demo_started\<lparr> retryCount := 1, status := Pending \<rparr>]
      \<and> Map_size (processingTasks (snd (failTask 5 ''a'' ''boom'' (demo_pair 1)))) = 2
      \<and> processingTasks (snd (failTask 5 ''a'' ''boom'' (demo_pair 1)))
          = [(''b'', (demo_task ''b'')\<lparr> status := Processing, startedAt := Some 1 \<rparr>),
             (''a'', demo_started\<lparr> retryCount := 1, startedAt := Some 5 \<rparr>)]
      \<and> pendingQueue (snd (failTask 5 ''a'' ''boom'' (demo_pair 1))) = [])
   \<and> (queue_wf (demo_pair 0)
      \<and> Map_get (processingTasks (demo_pair 0)) ''a'' = Some demo_started
      \<and> \<not> retryCount demo_started < retryAttempts (options (demo_pair 0))
      \<and> getTask (snd (failTask 5 ''a'' ''boom'' (demo_pair 0))) ''a''
          = Some (demo_started\<lparr> status := Failed, error := Some ''boom'', completedAt := Some 5 \<rparr>)
      \<and> processingTasks (snd (failTask 5 ''a'' ''boom'' (demo_pair 0)))
          = [(''b'', (demo_task ''b'')\<lparr> status := Processing, startedAt := Some 1 \<rparr>)]
      \<and> completedTasks (snd (failTask 5 ''a'' ''boom'' (demo_pair 0)))
          = [(''a'', demo_started\<lparr> status := Failed, error := Some ''boom'',
                                   completedAt := Some 5 \<rparr>)]
      \<and> totalFailed (stats (snd (failTask 5 ''a'' ''boom'' (demo_pair 0)))) = 1)
   \<and> (0 \<le> retryAttempts (options (TaskQueue_new
               \<lparr> given_maxConcurrent = Some 1, given_taskTimeout = None,
                 given_retryAttempts = Some 1 \<rparr>))
      \<and> list_all (\<lambda>t. retryCount t \<le> 1)
        (all_tasks (run [(0, Enqueue (demo_task ''a'')), (1, FailTask ''a'' ''e1''),
                         (2, FailTask ''a'' ''e2'')]
            (TaskQueue_new \<lparr> given_maxConcurrent = Some 1, given_taskTimeout = None,
                             given_retryAttempts = Some 1 \<rparr>))))"
proof -
  let ?raw = "\<lparr> given_maxConcurrent = Some 1, given_taskTimeout = None,
                 given_retryAttempts = Some 1 \<rparr>"
  let ?ops = "[(0, Enqueue (demo_task ''a'')), (1, FailTask ''a'' ''e1''),
               (2, FailTask ''a'' ''e2'')]"
  let ?pair = "[(0, Enqueue (demo_task ''a'')), (1, Enqueue (demo_task ''b''))]"
  note fr = failTask_retries_then_readmits
  have m: "\<And>r. 0 \<le> maxConcurrent (options (TaskQueue_new
             \<lparr> given_maxConcurrent = Some 2, given_taskTimeout = None,
               given_retryAttempts = Some r \<rparr>))"
    by (simp add: TaskQueue_new_def)
  have wf: "\<And>r. queue_wf (demo_pair r)"
    unfolding demo_pair_def demo_queue_def
    by (rule fr [THEN conjunct1, rule_format, OF m])
  have h1: "queue_wf (demo_pair 1) \<and> Map_get (processingTasks (demo_pair 1)) ''a'' = Some demo_started
      \<and> retryCount demo_started < retryAttempts (options (demo_pair 1))"
    using wf by (simp add: demo_pair_def) code_simp
  have h0: "queue_wf (demo_pair 0) \<and> Map_get (processingTasks (demo_pair 0)) ''a'' = Some demo_started
      \<and> \<not> retryCount demo_started < retryAttempts (options (demo_pair 0))"
    using wf by (simp add: demo_pair_def) code_simp
  have h3: "0 \<le> retryAttempts (options (TaskQueue_new ?raw))
      \<and> list_all (\<lambda>t. retryCount t = 0) (enqueued ?ops)"
    by (simp add: TaskQueue_new_def demo_task_def Task_new_def)
  have r: "retryAttempts (options (TaskQueue_new ?raw)) = 1"
    by (simp add: TaskQueue_new_def)
  have e1: "processingTasks (snd (failTask 5 ''a'' ''boom'' (demo_pair 1)))
          = [(''b'', (demo_task ''b'')\<lparr> status := Processing, startedAt := Some 1 \<rparr>),
             (''a'', demo_started\<lparr> retryCount := 1, startedAt := Some 5 \<rparr>)]
      \<and> pendingQueue (snd (failTask 5 ''a'' ''boom'' (demo_pair 1))) = []
      \<and> Map_size (processingTasks (demo_pair 1)) = 2
      \<and> pendingQueue (demo_pair 1) = []
      \<and> demo_started\<lparr> retryCount := retryCount demo_started + 1, status := Pending, error := None \<rparr>
          = demo_started\<lparr> retryCount := 1, status := Pending \<rparr>"
    by code_simp
  have e0: "processingTasks (snd (failTask 5 ''a'' ''boom'' (demo_pair 0)))
          = [(''b'', (demo_task ''b'')\<lparr> status := Processing, startedAt := Some 1 \<rparr>)]
      \<and> completedTasks (snd (failTask 5 ''a'' ''boom'' (demo_pair 0)))
          = [(''a'', demo_started\<lparr> status := Failed, error := Some ''boom'',
                                   completedAt := Some 5 \<rparr>)]
      \<and> totalFailed (stats (snd (failTask 5 ''a'' ''boom'' (demo_pair 0)))) = 1"
    by code_simp
  from fr [where q = "demo_pair 1" and tid = "''a''" and t = demo_started and now = 5
             and reason = "''boom''", THEN conjunct2, THEN conjunct1, rule_format]
       fr [where q = "demo_pair 1" and tid = "''a''" and t = demo_started and now = 5
             and reason = "''boom''", THEN conjunct2, THEN conjunct2, THEN conjunct1,
           rule_format, OF h1]
       fr [where q = "demo_pair 0" and tid = "''a''" and t = demo_started and now = 5
             and reason = "''boom''", THEN conjunct2, THEN conjunct2, THEN conjunct2,
           THEN conjunct2, THEN conjunct1, rule_format, OF h0]
       fr [where raw = ?raw and ops = ?ops, THEN conjunct2, THEN conjunct2, THEN conjunct2,
           THEN conjunct2, THEN conjunct2, rule_format, OF h3]
       h1 h0 h3 r e1 e0 m [of 1]
  show ?thesis
    by simp
qed

text \<open>
  The claim as stated fails for the state \<open>failTask\<close> returns. With two tasks in flight,
  a bound of 2 and one retry allowed, failing task \<open>a\<close> returns with \<open>a\<close> in state
  processing and in the in-flight map, and with an empty pending deque: the task is neither
  pending nor waiting at the head of the deque.
\<close>

theorem retried_task_is_back_in_flight_on_return:
  "Map_get (processingTasks (demo_pair 1)) ''a'' = Some demo_started
   \<and> retryCount demo_started < retryAttempts (options (demo_pair 1))
   \<and> map_option status (getTask (snd (failTask 5 ''a'' ''boom'' (demo_pair 1))) ''a'')
       = Some Processing
   \<and> map_option status (getTask (snd (failTask 5 ''a'' ''boom'' (demo_pair 1))) ''a'')
       \<noteq> Some Pending
   \<and> Map_has (processingTasks (snd (failTask 5 ''a'' ''boom'' (demo_pair 1)))) ''a''
   \<and> pendingQueue (snd (failTask 5 ''a'' ''boom'' (demo_pair 1))) = []"
  by code_simp

section \<open>Rounding to a double\<close>

text \<open>
  What the percentiles need of \<open>to_double\<close>: the result is within half a unit in the last
  place of the argument, rounding never crosses a whole number, whole numbers below \<open>2^53\<close>
  are not changed, and a positive argument has a positive result.
\<close>

lemma bit_length_le: "n < 2 ^ k \<Longrightarrow> bit_length n \<le> k"
proof (induction k arbitrary: n)
  case 0
  then show ?case by (simp add: bit_length.simps)
next
  case (Suc k)
  show ?case
  proof (cases "n \<le> 0")
    case True
    then show ?thesis by (simp add: bit_length.simps)
  next
    case False
    have "n div 2 < 2 ^ k"
      using Suc.prems by simp
    then have "bit_length (n div 2) \<le> k"
      by (rule Suc.IH)
    with False show ?thesis
      by (subst bit_length.simps) simp
  qed
qed

lemma pow2_pos [simp]: "0 < pow2 e"
  by (simp add: pow2_def)

lemma pow2_powi: "pow2 e = 2 powi e"
  by (simp add: pow2_def power_int_def power_one_over [symmetric] del: power_one_over)

lemma pow2_mono: "a \<le> b \<Longrightarrow> pow2 a \<le> pow2 b"
  by (simp add: pow2_powi power_int_increasing)

lemma pow2_neg: "pow2 (- int k) = 1 / 2 ^ k"
  by (simp add: pow2_def)

lemma ilog2_less:
  assumes "0 < x" and "x < 2 ^ k"
  shows "ilog2 x < int k"
proof (cases "1 \<le> x")
  case True
  have "\<lfloor>x\<rfloor> < 2 ^ k"
    using assms(2) by (simp add: floor_less_iff)
  then have "bit_length \<lfloor>x\<rfloor> \<le> k"
    by (rule bit_length_le)
  with True show ?thesis
    by (simp add: ilog2_def)
next
  case False
  with assms(1) have "1 < 1 / x"
    by simp
  then have "2 \<le> \<lceil>1 / x\<rceil>"
    by (simp add: le_ceiling_iff)
  then have "0 < bit_length (\<lceil>1 / x\<rceil> - 1)"
    by (subst bit_length.simps) simp
  with False show ?thesis
    by (simp add: ilog2_def)
qed

lemma round_half_even_bounds:
  "\<lfloor>r\<rfloor> \<le> round_half_even r \<and> round_half_even r \<le> \<lceil>r\<rceil>
   \<and> \<bar>of_int (round_half_even r) - r\<bar> \<le> 1 / 2"
proof -
  have c: "r \<noteq> of_int \<lfloor>r\<rfloor> \<Longrightarrow> \<lceil>r\<rceil> = \<lfloor>r\<rfloor> + 1"
    by (metis ceiling_altdef)
  have f: "of_int \<lfloor>r\<rfloor> \<le> r" "r < of_int \<lfloor>r\<rfloor> + 1"
    by linarith+
  show ?thesis
    unfolding round_half_even_def Let_def
    using c f by (auto simp: abs_le_iff ceiling_altdef)
qed

lemma to_double_pos:
  assumes "0 < x"
  shows "to_double x = of_int (round_half_even (x / pow2 (ilog2 x - 52))) * pow2 (ilog2 x - 52)"
  using assms by (simp add: to_double_def Let_def)

lemma to_double_error:
  assumes "0 < x"
  shows "\<bar>to_double x - x\<bar> \<le> pow2 (ilog2 x - 52) / 2"
proof -
  let ?p = "pow2 (ilog2 x - 52)"
  let ?r = "x / ?p"
  have "\<bar>of_int (round_half_even ?r) - ?r\<bar> \<le> 1 / 2"
    using round_half_even_bounds by blast
  then have "\<bar>of_int (round_half_even ?r) - ?r\<bar> * ?p \<le> 1 / 2 * ?p"
    by (rule mult_right_mono) (simp add: less_imp_le)
  moreover have "\<bar>of_int (round_half_even ?r) - ?r\<bar> * ?p = \<bar>to_double x - x\<bar>"
  proof -
    have "\<bar>of_int (round_half_even ?r) - ?r\<bar> * ?p = \<bar>(of_int (round_half_even ?r) - ?r) * ?p\<bar>"
      by (simp add: abs_mult abs_of_pos)
    also have "(of_int (round_half_even ?r) - ?r) * ?p = to_double x - x"
      using assms by (simp add: to_double_pos left_diff_distrib less_imp_neq [OF pow2_pos, symmetric])
    finally show ?thesis .
  qed
  ultimately show ?thesis
    by simp
qed

lemma to_double_le_int:
  assumes "0 < x" and "x \<le> of_int m" and "ilog2 x \<le> 52"
  shows "to_double x \<le> of_int m"
proof -
  let ?e = "ilog2 x - 52"
  let ?p = "pow2 ?e"
  obtain k where k: "?e = - int k"
    using assms(3) by (metis add.inverse_inverse diff_le_0_iff_le nat_0_le neg_0_le_iff_le)
  have p: "?p = 1 / 2 ^ k"
    unfolding k by (rule pow2_neg)
  have "x / ?p \<le> of_int m / ?p"
    using assms(2) by (simp add: divide_right_mono less_imp_le)
  also have "of_int m / ?p = of_int (m * 2 ^ k)"
    by (simp add: p)
  finally have "\<lceil>x / ?p\<rceil> \<le> m * 2 ^ k"
    by (simp only: ceiling_le_iff)
  moreover have "round_half_even (x / ?p) \<le> \<lceil>x / ?p\<rceil>"
    using round_half_even_bounds by blast
  ultimately have "round_half_even (x / ?p) \<le> m * 2 ^ k"
    by simp
  then have "(of_int (round_half_even (x / ?p)) :: rat) \<le> of_int (m * 2 ^ k)"
    by (simp only: of_int_le_iff)
  then have "of_int (round_half_even (x / ?p)) * ?p \<le> of_int (m * 2 ^ k) * ?p"
    by (rule mult_right_mono) (simp add: less_imp_le)
  also have "of_int (m * 2 ^ k) * ?p = of_int m"
    by (simp add: p)
  finally show ?thesis
    using assms(1) by (simp add: to_double_pos)
qed

lemma to_double_ge_int:
  assumes "0 < x" and "of_int m \<le> x" and "ilog2 x \<le> 52"
  shows "of_int m \<le> to_double x"
proof -
  let ?e = "ilog2 x - 52"
  let ?p = "pow2 ?e"
  obtain k where k: "?e = - int k"
    using assms(3) by (metis add.inverse_inverse diff_le_0_iff_le nat_0_le neg_0_le_iff_le)
  have p: "?p = 1 / 2 ^ k"
    unfolding k by (rule pow2_neg)
  have "of_int m / ?p \<le> x / ?p"
    using assms(2) by (simp add: divide_right_mono less_imp_le)
  moreover have "of_int m / ?p = of_int (m * 2 ^ k)"
    by (simp add: p)
  ultimately have "of_int (m * 2 ^ k) \<le> x / ?p"
    by simp
  then have "m * 2 ^ k \<le> \<lfloor>x / ?p\<rfloor>"
    by (simp only: le_floor_iff)
  moreover have "\<lfloor>x / ?p\<rfloor> \<le> round_half_even (x / ?p)"
    using round_half_even_bounds by blast
  ultimately have "m * 2 ^ k \<le> round_half_even (x / ?p)"
    by simp
  then have "(of_int (m * 2 ^ k) :: rat) \<le> of_int (round_half_even (x / ?p))"
    by (simp only: of_int_le_iff)
  then have "of_int (m * 2 ^ k) * ?p \<le> of_int (round_half_even (x / ?p)) * ?p"
    by (rule mult_right_mono) (simp add: less_imp_le)
  moreover have "of_int (m * 2 ^ k) * ?p = of_int m"
    by (simp add: p)
  ultimately have "of_int m \<le> of_int (round_half_even (x / ?p)) * ?p"
    by (simp only:)
  then show ?thesis
    using assms(1) by (simp only: to_double_pos)
qed

lemma to_double_of_int:
  assumes "0 \<le> i" and "i < 2 ^ 53"
  shows "to_double (of_int i) = of_int i"
proof (cases "i = 0")
  case True
  then show ?thesis by (simp add: to_double_def)
next
  case False
  with assms(1) have pos: "0 < (of_int i :: rat)"
    by simp
  have "(of_int i :: rat) < 2 ^ 53"
    using assms(2) by (metis of_int_less_iff of_int_numeral of_int_power)
  then have "ilog2 (of_int i) < int 53"
    by (rule ilog2_less [OF pos])
  then have l: "ilog2 (of_int i) \<le> 52"
    by simp
  have "to_double (of_int i) \<le> of_int i"
    by (rule to_double_le_int [OF pos _ l]) simp
  moreover have "of_int i \<le> to_double (of_int i)"
    by (rule to_double_ge_int [OF pos _ l]) simp
  ultimately show ?thesis
    by simp
qed

lemma ceiling_to_double:
  assumes "0 < x" and "x < 2 ^ 10" and "x \<le> of_int c" and "of_int c - 1 + 1 / 2 ^ 43 < x"
  shows "\<lceil>to_double x\<rceil> = c"
proof -
  have "ilog2 x < int 10"
    using assms(1,2) by (rule ilog2_less)
  then have l: "ilog2 x - 52 \<le> - int 42"
    by simp
  have "pow2 (ilog2 x - 52) \<le> pow2 (- int 42)"
    by (rule pow2_mono [OF l])
  then have "pow2 (ilog2 x - 52) / 2 \<le> 1 / 2 ^ 43"
    unfolding pow2_neg by simp
  with to_double_error [OF assms(1)] have "\<bar>to_double x - x\<bar> \<le> 1 / 2 ^ 43"
    by simp
  with assms(4) have lo: "of_int c - 1 < to_double x"
    by linarith
  from l have "ilog2 x \<le> 52"
    by simp
  then have hi: "to_double x \<le> of_int c"
    by (rule to_double_le_int [OF assms(1,3)])
  from lo hi show ?thesis
    by (rule ceiling_unique)
qed


lemma rank_of_rounded_quantile:
  fixes qd :: rat
  assumes n: "1 \<le> n" "n \<le> 1000"
    and a: "0 < a" "a \<le> 100"
    and qd: "0 < qd" "qd \<le> of_int a / 100" "of_int a / 100 - qd \<le> 1 / 2 ^ 53"
  shows "\<lceil>to_double (of_nat n * qd)\<rceil> = \<lceil>of_nat n * (of_int a / 100 :: rat)\<rceil>"
proof -
  let ?q = "of_int a / 100 :: rat"
  let ?c = "\<lceil>of_nat n * ?q\<rceil>"
  let ?x = "of_nat n * qd :: rat"
  have npos: "0 < (of_nat n :: rat)" and nle: "(of_nat n :: rat) \<le> 1000"
    using n by simp_all
  have x0: "0 < ?x"
    using npos qd(1) by simp
  have xq: "?x \<le> of_nat n * ?q"
    using npos qd(2) by simp
  have "of_nat n * ?q \<le> of_nat n * 1"
    using a(2) npos by (intro mult_left_mono) simp_all
  with xq nle have x1: "?x < 2 ^ 10"
    by simp
  have "of_nat n * ?q \<le> of_int ?c"
    by (rule le_of_int_ceiling)
  with xq have x2: "?x \<le> of_int ?c"
    by (rule order_trans)
  have "of_int ?c - 1 < of_nat n * ?q"
    by linarith
  then have "of_int (100 * (?c - 1)) < (of_int (int n * a) :: rat)"
    by simp
  then have "100 * (?c - 1) < int n * a"
    by (simp only: of_int_less_iff)
  then have "100 * (?c - 1) + 1 \<le> int n * a"
    by simp
  then have "(of_int (100 * (?c - 1) + 1) :: rat) \<le> of_int (int n * a)"
    by (simp only: of_int_le_iff)
  then have gap: "of_int ?c - 1 + 1 / 100 \<le> of_nat n * ?q"
    by simp
  have "of_nat n * (?q - qd) \<le> 1000 * (1 / 2 ^ 53)"
    using nle qd(2,3) by (intro mult_mono) simp_all
  then have "of_nat n * ?q - ?x \<le> 1000 / 2 ^ 53"
    by (simp add: right_diff_distrib)
  with gap have "of_int ?c - 1 + 1 / 100 - 1000 / 2 ^ 53 \<le> ?x"
    by linarith
  moreover have "(1 / 2 ^ 43 :: rat) < 1 / 100 - 1000 / 2 ^ 53"
    by simp
  ultimately have x3: "of_int ?c - 1 + 1 / 2 ^ 43 < ?x"
    by linarith
  show ?thesis
    using x0 x1 x2 x3 by (rule ceiling_to_double)
qed


lemma bit_length_upper: "n < 2 ^ bit_length n"
proof (induction n rule: bit_length.induct)
  case (1 n)
  show ?case
  proof (cases "n \<le> 0")
    case True
    then show ?thesis
      by (subst bit_length.simps) simp
  next
    case False
    then have "n div 2 < 2 ^ bit_length (n div 2)"
      by (rule "1.IH")
    then have "n < 2 * 2 ^ bit_length (n div 2)"
      by linarith
    with False show ?thesis
      by (subst bit_length.simps) simp
  qed
qed

lemma bit_length_lower: "0 < n \<Longrightarrow> 2 ^ (bit_length n - 1) \<le> n"
proof (induction n rule: bit_length.induct)
  case (1 n)
  then have pos: "\<not> n \<le> 0"
    by simp
  have b: "bit_length n = Suc (bit_length (n div 2))"
    using pos by (subst bit_length.simps) simp
  show ?case
  proof (cases "n div 2 \<le> 0")
    case True
    then have "bit_length (n div 2) = 0"
      by (subst bit_length.simps) simp
    with "1.prems" show ?thesis
      by (simp add: b)
  next
    case False
    then have h: "0 < n div 2"
      by simp
    have "2 ^ (bit_length (n div 2) - 1) \<le> n div 2"
      using "1.IH" [OF pos h] .
    then have "2 * 2 ^ (bit_length (n div 2) - 1) \<le> n"
      by linarith
    moreover have "0 < bit_length (n div 2)"
      using False by (subst bit_length.simps) simp
    then have "2 * 2 ^ (bit_length (n div 2) - 1) = (2::int) ^ bit_length (n div 2)"
      by (cases "bit_length (n div 2)") simp_all
    ultimately show ?thesis
      by (simp add: b)
  qed
qed

lemma pow2_ilog2_le:
  assumes "0 < x"
  shows "pow2 (ilog2 x) \<le> x"
proof (cases "1 \<le> x")
  case True
  then have f: "0 < \<lfloor>x\<rfloor>"
    by simp
  then have "0 < bit_length \<lfloor>x\<rfloor>"
    by (subst bit_length.simps) simp
  then have "ilog2 x = int (bit_length \<lfloor>x\<rfloor> - 1)"
    using True by (simp add: ilog2_def)
  then have "pow2 (ilog2 x) = 2 ^ (bit_length \<lfloor>x\<rfloor> - 1)"
    by (simp add: pow2_def)
  also have "\<dots> = of_int (2 ^ (bit_length \<lfloor>x\<rfloor> - 1))"
    by simp
  also have "\<dots> \<le> of_int \<lfloor>x\<rfloor>"
    using bit_length_lower [OF f] by (simp only: of_int_le_iff)
  also have "\<dots> \<le> x"
    by simp
  finally show ?thesis .
next
  case False
  let ?m = "\<lceil>1 / x\<rceil>"
  let ?b = "bit_length (?m - 1)"
  have "?m - 1 < 2 ^ ?b"
    by (rule bit_length_upper)
  then have "?m \<le> 2 ^ ?b"
    by simp
  then have "(of_int ?m :: rat) \<le> of_int (2 ^ ?b)"
    by (simp only: of_int_le_iff)
  then have "(of_int ?m :: rat) \<le> 2 ^ ?b"
    by simp
  moreover have "1 / x \<le> of_int ?m"
    by (rule le_of_int_ceiling)
  ultimately have "1 / x \<le> 2 ^ ?b"
    by linarith
  then have "1 \<le> 2 ^ ?b * x"
    using assms by (simp add: pos_divide_le_eq)
  then have "1 / 2 ^ ?b \<le> x"
    by (simp add: pos_divide_le_eq mult.commute)
  moreover have "pow2 (ilog2 x) = 1 / 2 ^ ?b"
    using False by (simp add: ilog2_def pow2_neg)
  ultimately show ?thesis
    by simp
qed

lemma to_double_positive:
  assumes "0 < x"
  shows "0 < to_double x"
proof -
  let ?p = "pow2 (ilog2 x - 52)"
  have "?p \<le> pow2 (ilog2 x)"
    by (rule pow2_mono) simp
  also have "\<dots> \<le> x"
    by (rule pow2_ilog2_le [OF assms])
  finally have "1 \<le> x / ?p"
    by (simp add: pos_le_divide_eq)
  then have "1 \<le> \<lfloor>x / ?p\<rfloor>"
    by (simp only: le_floor_iff of_int_1)
  moreover have "\<lfloor>x / ?p\<rfloor> \<le> round_half_even (x / ?p)"
    using round_half_even_bounds by blast
  ultimately have "0 < round_half_even (x / ?p)"
    by linarith
  then have "0 < (of_int (round_half_even (x / ?p)) :: rat) * ?p"
    by simp
  then show ?thesis
    using assms by (simp only: to_double_pos)
qed

text \<open>
  The scaled magnitude lies in \<open>[2^52, 2^53)\<close>, so the significand that \<open>to_double\<close> rounds
  to has 53 bits (or is \<open>2^53\<close>, the next power of two).
\<close>

lemma pow2_ilog2_greater:
  assumes "0 < x"
  shows "x < pow2 (ilog2 x + 1)"
proof (cases "1 \<le> x")
  case True
  have "\<lfloor>x\<rfloor> < 2 ^ bit_length \<lfloor>x\<rfloor>"
    by (rule bit_length_upper)
  then have "\<lfloor>x\<rfloor> + 1 \<le> 2 ^ bit_length \<lfloor>x\<rfloor>"
    by simp
  then have "(of_int (\<lfloor>x\<rfloor> + 1) :: rat) \<le> of_int (2 ^ bit_length \<lfloor>x\<rfloor>)"
    by (simp only: of_int_le_iff)
  then have "(of_int \<lfloor>x\<rfloor> :: rat) + 1 \<le> 2 ^ bit_length \<lfloor>x\<rfloor>"
    by simp
  moreover have "x < of_int \<lfloor>x\<rfloor> + 1"
    by linarith
  ultimately have "x < 2 ^ bit_length \<lfloor>x\<rfloor>"
    by linarith
  moreover have "pow2 (ilog2 x + 1) = 2 ^ bit_length \<lfloor>x\<rfloor>"
    using True by (simp add: ilog2_def pow2_def)
  ultimately show ?thesis
    by simp
next
  case False
  let ?m = "\<lceil>1 / x\<rceil>"
  let ?b = "bit_length (?m - 1)"
  from False assms have "1 < 1 / x"
    by simp
  then have m: "0 < ?m - 1"
    by (simp add: less_ceiling_iff)
  then have b: "0 < ?b"
    by (subst bit_length.simps) simp
  have "2 ^ (?b - 1) \<le> ?m - 1"
    by (rule bit_length_lower [OF m])
  then have "(of_int (2 ^ (?b - 1)) :: rat) \<le> of_int (?m - 1)"
    by (simp only: of_int_le_iff)
  then have "(2 ^ (?b - 1) :: rat) \<le> of_int ?m - 1"
    by simp
  moreover have "of_int ?m - 1 < 1 / x"
    by linarith
  ultimately have "(2 ^ (?b - 1) :: rat) < 1 / x"
    by linarith
  then have "2 ^ (?b - 1) * x < 1"
    using assms by (simp add: pos_less_divide_eq)
  then have "x < 1 / 2 ^ (?b - 1)"
    by (simp add: pos_less_divide_eq mult.commute)
  moreover have "ilog2 x + 1 = - int (?b - 1)"
    using False b by (simp add: ilog2_def)
  then have "pow2 (ilog2 x + 1) = 1 / 2 ^ (?b - 1)"
    by (simp only: pow2_neg)
  ultimately show ?thesis
    by simp
qed

lemma pow2_add: "pow2 (a + b) = pow2 a * pow2 b"
  by (simp add: pow2_powi power_int_add)

lemma to_double_significand:
  assumes "0 < x"
  shows "2 ^ 52 \<le> round_half_even (x / pow2 (ilog2 x - 52))"
    and "round_half_even (x / pow2 (ilog2 x - 52)) \<le> 2 ^ 53"
proof -
  let ?p = "pow2 (ilog2 x - 52)"
  let ?r = "x / ?p"
  have "ilog2 x = ilog2 x - 52 + int 52"
    by simp
  then have "pow2 (ilog2 x) = pow2 (ilog2 x - 52 + int 52)"
    by (simp only:)
  also have "\<dots> = ?p * 2 ^ 52"
    unfolding pow2_add by (simp add: pow2_def)
  finally have lo: "?p * 2 ^ 52 \<le> x"
    using pow2_ilog2_le [OF assms] by simp
  have "ilog2 x + 1 = ilog2 x - 52 + int 53"
    by simp
  then have "pow2 (ilog2 x + 1) = pow2 (ilog2 x - 52 + int 53)"
    by (simp only:)
  also have "\<dots> = ?p * 2 ^ 53"
    unfolding pow2_add by (simp add: pow2_def)
  finally have hi: "x < ?p * 2 ^ 53"
    using pow2_ilog2_greater [OF assms] by simp
  from lo have "of_int (2 ^ 52) \<le> ?r"
    by (simp add: pos_le_divide_eq mult.commute)
  then have "2 ^ 52 \<le> \<lfloor>?r\<rfloor>"
    by (simp only: le_floor_iff)
  moreover have "\<lfloor>?r\<rfloor> \<le> round_half_even ?r"
    using round_half_even_bounds by blast
  ultimately show "2 ^ 52 \<le> round_half_even ?r"
    by (rule order_trans)
  from hi have "?r \<le> of_int (2 ^ 53)"
    by (simp add: pos_divide_le_eq mult.commute less_imp_le)
  then have "\<lceil>?r\<rceil> \<le> 2 ^ 53"
    by (simp only: ceiling_le_iff)
  moreover have "round_half_even ?r \<le> \<lceil>?r\<rceil>"
    using round_half_even_bounds by blast
  ultimately show "round_half_even ?r \<le> 2 ^ 53"
    by (rule order_trans [rotated])
qed

section \<open>Percentiles of the processing times\<close>

lemma to_double_nonpos:
  assumes "x \<le> 0"
  shows "to_double x \<le> 0"
proof (cases "x = 0")
  case True
  then show ?thesis by (simp add: to_double_def)
next
  case False
  with assms have neg: "x < 0" by simp
  let ?p = "pow2 (ilog2 \<bar>x\<bar> - 52)"
  have "0 \<le> \<bar>x\<bar> / ?p"
    by (simp add: less_imp_le)
  then have "0 \<le> \<lfloor>\<bar>x\<bar> / ?p\<rfloor>"
    by (simp only: zero_le_floor)
  moreover have "\<lfloor>\<bar>x\<bar> / ?p\<rfloor> \<le> round_half_even (\<bar>x\<bar> / ?p)"
    using round_half_even_bounds by blast
  ultimately have "0 \<le> round_half_even (\<bar>x\<bar> / ?p)"
    by (rule order_trans)
  then have "0 \<le> (of_int (round_half_even (\<bar>x\<bar> / ?p)) :: rat) * ?p"
    by (simp add: less_imp_le)
  moreover have "to_double x = - (of_int (round_half_even (\<bar>x\<bar> / ?p)) * ?p)"
    using neg by (simp add: to_double_def Let_def)
  ultimately show ?thesis
    by simp
qed

lemma nearest_rank_bounds:
  fixes q :: rat
  assumes "0 < n" "0 < q" "q \<le> 1"
  shows "0 \<le> \<lceil>of_nat n * q\<rceil> - 1" and "\<lceil>of_nat n * q\<rceil> - 1 < int n"
proof -
  have "0 < of_nat n * q"
    using assms by simp
  then have "0 < \<lceil>of_nat n * q\<rceil>"
    by (simp add: ceiling_less_iff[symmetric] less_ceiling_iff)
  then show "0 \<le> \<lceil>of_nat n * q\<rceil> - 1"
    by simp
  have "of_nat n * q \<le> of_nat n"
    using assms by (simp add: mult_left_le)
  then have "\<lceil>of_nat n * q\<rceil> \<le> int n"
    by (simp add: ceiling_le_iff)
  then show "\<lceil>of_nat n * q\<rceil> - 1 < int n"
    by simp
qed

text \<open>
  For the three quantiles that are reported and at most 1000 samples, rounding the
  quantile and the product does not change the ceiling.
\<close>

lemma rank_of_reported_quantile:
  fixes q :: rat
  assumes "1 \<le> n" and "n \<le> 1000" and "q = 1 / 2 \<or> q = 95 / 100 \<or> q = 99 / 100"
  shows "\<lceil>js_mul (of_nat n) (to_double q)\<rceil> = \<lceil>of_nat n * q\<rceil>"
proof -
  from assms(3) consider "q = 1 / 2" | "q = 95 / 100" | "q = 99 / 100"
    by blast
  then show ?thesis
  proof cases
    case 1
    have h: "to_double (1 / 2) = 1 / 2"
      by code_simp
    have "\<lceil>to_double (of_nat n * (1 / 2 :: rat))\<rceil> = \<lceil>of_nat n * (of_int 50 / 100 :: rat)\<rceil>"
      by (rule rank_of_rounded_quantile [OF assms(1,2)]) simp_all
    then show ?thesis
      by (simp add: 1 js_mul_def h)
  next
    case 2
    have "\<lceil>to_double (of_nat n * to_double (95 / 100))\<rceil> = \<lceil>of_nat n * (of_int 95 / 100 :: rat)\<rceil>"
    proof (rule rank_of_rounded_quantile [OF assms(1,2)])
      show "0 < (95::int)" and "(95::int) \<le> 100"
        by simp_all
      show "0 < to_double (95 / 100)"
        by code_simp
      show "to_double (95 / 100) \<le> of_int 95 / 100"
        by code_simp
      show "of_int 95 / 100 - to_double (95 / 100) \<le> 1 / 2 ^ 53"
        by code_simp
    qed
    then show ?thesis
      by (simp add: 2 js_mul_def)
  next
    case 3
    have "\<lceil>to_double (of_nat n * to_double (99 / 100))\<rceil> = \<lceil>of_nat n * (of_int 99 / 100 :: rat)\<rceil>"
    proof (rule rank_of_rounded_quantile [OF assms(1,2)])
      show "0 < (99::int)" and "(99::int) \<le> 100"
        by simp_all
      show "0 < to_double (99 / 100)"
        by code_simp
      show "to_double (99 / 100) \<le> of_int 99 / 100"
        by code_simp
      show "of_int 99 / 100 - to_double (99 / 100) \<le> 1 / 2 ^ 53"
        by code_simp
    qed
    then show ?thesis
      by (simp add: 3 js_mul_def)
  qed
qed

lemma getPercentile_reported:
  fixes q :: rat
  assumes "1 \<le> length xs" and "length xs \<le> 1000"
    and "q = 1 / 2 \<or> q = 95 / 100 \<or> q = 99 / 100"
  shows "getPercentile xs (to_double q) = Some (xs ! nat (\<lceil>of_nat (length xs) * q\<rceil> - 1))"
proof -
  have q: "0 < q" "q \<le> 1"
    using assms(3) by auto
  have n: "0 < length xs"
    using assms(1) by linarith
  then have ne: "xs \<noteq> []"
    by simp
  have r: "\<lceil>js_mul (of_nat (length xs)) (to_double q)\<rceil> = \<lceil>of_nat (length xs) * q\<rceil>"
    by (rule rank_of_reported_quantile [OF assms])
  have "getPercentile xs (to_double q) = js_index xs (max 0 (\<lceil>of_nat (length xs) * q\<rceil> - 1))"
    unfolding getPercentile_def Let_def r using ne by simp
  also have "\<dots> = Some (xs ! nat (\<lceil>of_nat (length xs) * q\<rceil> - 1))"
    using nearest_rank_bounds [OF n q] by (simp add: js_index_def)
  finally show ?thesis .
qed

text \<open>For any quantile in \<open>(0, 1]\<close> the index read is inside the array.\<close>

lemma getPercentile_rounded_rank:
  assumes "xs \<noteq> []" and "length xs < 2 ^ 53" and "0 < q" and "q \<le> 1"
  shows "0 \<le> \<lceil>to_double (of_nat (length xs) * q)\<rceil> - 1"
    and "\<lceil>to_double (of_nat (length xs) * q)\<rceil> - 1 < int (length xs)"
    and "getPercentile xs q = Some (xs ! nat (\<lceil>to_double (of_nat (length xs) * q)\<rceil> - 1))"
proof -
  let ?x = "of_nat (length xs) * q"
  have n: "0 < (of_nat (length xs) :: rat)"
    using assms(1) by simp
  have x0: "0 < ?x"
    using n assms(3) by simp
  have xn: "?x \<le> of_int (int (length xs))"
    using n assms(4) by (simp add: mult_left_le)
  have "(of_nat (length xs) :: rat) < 2 ^ 53"
    using assms(2) by (metis of_nat_less_iff of_nat_numeral of_nat_power)
  with xn have "?x < 2 ^ 53"
    by simp
  then have "ilog2 ?x < int 53"
    by (rule ilog2_less [OF x0])
  then have l: "ilog2 ?x \<le> 52"
    by simp
  have "0 < to_double ?x"
    by (rule to_double_positive [OF x0])
  then have "0 < \<lceil>to_double ?x\<rceil>"
    by (simp add: less_ceiling_iff)
  then show lo: "0 \<le> \<lceil>to_double ?x\<rceil> - 1"
    by simp
  have "to_double ?x \<le> of_int (int (length xs))"
    by (rule to_double_le_int [OF x0 xn l])
  then have "\<lceil>to_double ?x\<rceil> \<le> int (length xs)"
    by (simp only: ceiling_le_iff)
  then show hi: "\<lceil>to_double ?x\<rceil> - 1 < int (length xs)"
    by simp
  show "getPercentile xs q = Some (xs ! nat (\<lceil>to_double ?x\<rceil> - 1))"
    unfolding getPercentile_def Let_def js_mul_def
    using assms(1) lo hi by (simp add: js_index_def)
qed

lemma getPercentile_clamps_at_zero:
  assumes "xs \<noteq> []" and "q \<le> 0"
  shows "getPercentile xs q = Some (hd xs)"
proof -
  have "of_nat (length xs) * q \<le> 0"
    using assms(2) by (simp add: mult_nonneg_nonpos)
  then have "js_mul (of_nat (length xs)) q \<le> 0"
    unfolding js_mul_def by (rule to_double_nonpos)
  then have "\<lceil>js_mul (of_nat (length xs)) q\<rceil> \<le> 0"
    by (simp add: ceiling_le_iff)
  then have "max 0 (\<lceil>js_mul (of_nat (length xs)) q\<rceil> - 1) = 0"
    by simp
  moreover have "js_index xs 0 = Some (hd xs)"
    using assms(1) by (simp add: js_index_def hd_conv_nth)
  ultimately show ?thesis
    using assms(1) by (simp only: getPercentile_def Let_def) simp
qed

text \<open>The ends of the sorted copy are the least and the greatest sample.\<close>

lemma sorted_hd_last:
  assumes "sorted xs" and "y \<in> set xs"
  shows "hd xs \<le> y \<and> y \<le> last xs"
proof -
  obtain i where i: "i < length xs" "xs ! i = y"
    using assms(2) by (auto simp: in_set_conv_nth)
  then have ne: "xs \<noteq> []"
    by auto
  have "xs ! 0 \<le> xs ! i"
    by (rule sorted_nth_mono [OF assms(1)]) (use i in simp_all)
  moreover have "xs ! i \<le> xs ! (length xs - 1)"
    by (rule sorted_nth_mono [OF assms(1)]) (use i in simp_all)
  ultimately show ?thesis
    using ne i by (simp add: hd_conv_nth last_conv_nth)
qed

lemma hd_sort_Min:
  fixes xs :: "rat list"
  assumes "xs \<noteq> []"
  shows "hd (sort xs) = Min (set xs)"
proof -
  from assms have ne: "sort xs \<noteq> []"
    by (metis length_0_conv length_sort)
  have "\<forall>y\<in>set xs. hd (sort xs) \<le> y"
    using sorted_hd_last [OF sorted_sort, of _ xs] by simp
  moreover have "hd (sort xs) \<in> set xs"
    using hd_in_set [OF ne] by simp
  ultimately have "Min (set xs) = hd (sort xs)"
    by (intro Min_eqI) simp_all
  then show ?thesis
    by simp
qed

lemma last_sort_Max:
  fixes xs :: "rat list"
  assumes "xs \<noteq> []"
  shows "last (sort xs) = Max (set xs)"
proof -
  from assms have ne: "sort xs \<noteq> []"
    by (metis length_0_conv length_sort)
  have "\<forall>y\<in>set xs. y \<le> last (sort xs)"
    using sorted_hd_last [OF sorted_sort, of _ xs] by simp
  moreover have "last (sort xs) \<in> set xs"
    using last_in_set [OF ne] by simp
  ultimately have "Max (set xs) = last (sort xs)"
    by (intro Max_eqI) simp_all
  then show ?thesis
    by simp
qed

lemma sort_replicate: "sort (replicate n (d::rat)) = replicate n d"
  by (induction n) (simp_all add: insort_is_Cons)

text \<open>
  The reservoir after an insertion, and the statistics as functions of the reservoir.
\<close>

lemma samples_updateProcessingTimeStats [simp]:
  "samples (processingTimeStats (updateProcessingTimeStats m)) = samples (processingTimeStats m)"
  by (simp add: updateProcessingTimeStats_def Let_def)

lemma samples_addProcessingTime:
  "samples (processingTimeStats (addProcessingTime t m))
     = (if 1000 < length (samples (processingTimeStats m) @ [t])
        then tl (samples (processingTimeStats m) @ [t])
        else samples (processingTimeStats m) @ [t])"
  by (simp add: addProcessingTime_def Let_def)

lemma samples_nonempty: "samples (processingTimeStats (addProcessingTime t m)) \<noteq> []"
proof -
  have "1000 < length xs \<Longrightarrow> tl xs \<noteq> []" for xs :: "rat list"
    by (cases xs) auto
  then show ?thesis
    unfolding samples_addProcessingTime by (auto simp del: length_append)
qed

lemma stats_updateProcessingTimeStats:
  assumes "samples (processingTimeStats m) \<noteq> []"
  shows "processingTimeStats (updateProcessingTimeStats m)
     = (let smp = samples (processingTimeStats m); sorted = sort smp
        in (processingTimeStats m)
             \<lparr> min_time := hd sorted,
               max_time := last sorted,
               avg := js_div (foldl js_add 0 smp) (of_nat (length smp)),
               p50 := getPercentile sorted (to_double (1 / 2)),
               p95 := getPercentile sorted (to_double (95 / 100)),
               p99 := getPercentile sorted (to_double (99 / 100)) \<rparr>)"
  using assms by (simp add: updateProcessingTimeStats_def Let_def)

lemma stats_addProcessingTime:
  "processingTimeStats (addProcessingTime t m)
     = (let smp = samples (processingTimeStats (addProcessingTime t m)); sorted = sort smp
        in (processingTimeStats m)
             \<lparr> samples := smp,
               min_time := hd sorted,
               max_time := last sorted,
               avg := js_div (foldl js_add 0 smp) (of_nat (length smp)),
               p50 := getPercentile sorted (to_double (1 / 2)),
               p95 := getPercentile sorted (to_double (95 / 100)),
               p99 := getPercentile sorted (to_double (99 / 100)) \<rparr>)"
proof -
  define kept where "kept = samples (processingTimeStats (addProcessingTime t m))"
  have ne: "kept \<noteq> []"
    unfolding kept_def by (rule samples_nonempty)
  have k: "kept = (if 1000 < length (samples (processingTimeStats m) @ [t])
        then tl (samples (processingTimeStats m) @ [t])
        else samples (processingTimeStats m) @ [t])"
    unfolding kept_def by (rule samples_addProcessingTime)
  have a: "addProcessingTime t m
             = updateProcessingTimeStats
                 (m\<lparr> processingTimeStats := (processingTimeStats m)\<lparr> samples := kept \<rparr> \<rparr>)"
    unfolding k by (simp add: addProcessingTime_def Let_def)
  have "processingTimeStats (addProcessingTime t m)
      = (let smp = kept; sorted = sort smp
        in (processingTimeStats m)
             \<lparr> samples := smp,
               min_time := hd sorted,
               max_time := last sorted,
               avg := js_div (foldl js_add 0 smp) (of_nat (length smp)),
               p50 := getPercentile sorted (to_double (1 / 2)),
               p95 := getPercentile sorted (to_double (95 / 100)),
               p99 := getPercentile sorted (to_double (99 / 100)) \<rparr>)"
    unfolding a by (subst stats_updateProcessingTimeStats) (simp_all add: ne Let_def)
  then show ?thesis
    by (simp only: kept_def)
qed

lemma samples_fold:
  "samples (processingTimeStats (fold addProcessingTime ts MetricsService_new))
     = drop (length ts - 1000) ts"
proof (induction ts rule: rev_induct)
  case Nil
  show ?case by (simp add: MetricsService_new_def)
next
  case (snoc t ts)
  show ?case
  proof (cases "length ts < 1000")
    case True
    then show ?thesis
      using snoc by (simp add: samples_addProcessingTime)
  next
    case False
    then have l: "1000 \<le> length ts" by simp
    then have ne: "drop (length ts - 1000) ts \<noteq> []"
      by simp
    have "tl (drop (length ts - 1000) ts @ [t]) = tl (drop (length ts - 1000) ts) @ [t]"
      using ne by simp
    also have "tl (drop (length ts - 1000) ts) = drop (Suc (length ts - 1000)) ts"
      by (simp add: drop_Suc tl_drop)
    finally have "tl (drop (length ts - 1000) ts @ [t]) = drop (Suc (length ts - 1000)) ts @ [t]" .
    moreover have "Suc (length ts) - 1000 = Suc (length ts - 1000)"
      using l by simp
    ultimately show ?thesis
      using snoc l by (simp add: samples_addProcessingTime)
  qed
qed

lemma stats_fold:
  assumes "ts \<noteq> []"
  shows "processingTimeStats (fold addProcessingTime ts MetricsService_new)
     = (let smp = drop (length ts - 1000) ts; sorted = sort smp
        in \<lparr> samples = smp,
             min_time = hd sorted,
             max_time = last sorted,
             avg = js_div (foldl js_add 0 smp) (of_nat (length smp)),
             p50 = getPercentile sorted (to_double (1 / 2)),
             p95 = getPercentile sorted (to_double (95 / 100)),
             p99 = getPercentile sorted (to_double (99 / 100)) \<rparr>)"
proof -
  from assms obtain us t where ts: "ts = us @ [t]"
    by (cases ts rule: rev_cases) simp_all
  let ?m = "fold addProcessingTime us MetricsService_new"
  have f: "fold addProcessingTime ts MetricsService_new = addProcessingTime t ?m"
    by (simp add: ts)
  have s: "samples (processingTimeStats (addProcessingTime t ?m)) = drop (length ts - 1000) ts"
    using samples_fold [of ts] by (simp only: f)
  show ?thesis
    unfolding f by (subst stats_addProcessingTime) (simp add: s Let_def)
qed

lemma length_kept:
  "ts \<noteq> [] \<Longrightarrow>
     1 \<le> length (drop (length ts - 1000) ts) \<and> length (drop (length ts - 1000) ts) \<le> 1000"
  by (cases ts) auto

text \<open>Sums of whole numbers stay exact while they are below \<open>2^53\<close>.\<close>

lemma sum_list_bound: "\<forall>k\<in>set ms. k \<le> b \<Longrightarrow> sum_list ms \<le> length ms * (b::nat)"
  by (induction ms) auto

lemma to_double_of_nat: "k < 2 ^ 53 \<Longrightarrow> to_double (of_nat k) = of_nat k"
proof -
  assume "k < 2 ^ 53"
  then have "int k < 2 ^ 53"
    by (metis of_nat_less_iff of_nat_numeral of_nat_power)
  then have "to_double (of_int (int k)) = of_int (int k)"
    by (intro to_double_of_int) simp_all
  then show ?thesis
    by simp
qed

lemma foldl_js_add_whole:
  "a + sum_list ms < 2 ^ 53 \<Longrightarrow> foldl js_add (of_nat a) (map of_nat ms) = of_nat (a + sum_list ms)"
proof (induction ms arbitrary: a)
  case Nil
  show ?case by simp
next
  case (Cons m ms)
  have "a + m < 2 ^ 53"
    using Cons.prems by simp
  then have "js_add (of_nat a) (of_nat m) = of_nat (a + m)"
    using to_double_of_nat [of "a + m"] by (simp add: js_add_def)
  moreover have "foldl js_add (of_nat (a + m)) (map of_nat ms) = of_nat (a + m + sum_list ms)"
    using Cons.prems by (intro Cons.IH) simp
  ultimately show ?case
    by (simp add: add.assoc)
qed

lemma avg_of_whole_samples:
  assumes "ns \<noteq> []" and "\<forall>k\<in>set ns. k < 2 ^ 43"
  shows "avg (processingTimeStats (fold addProcessingTime (map of_nat ns) MetricsService_new))
           = to_double (of_nat (sum_list (drop (length ns - 1000) ns))
                          / of_nat (length (drop (length ns - 1000) ns)))"
proof -
  let ?ms = "drop (length ns - 1000) ns"
  have len: "length ?ms \<le> 1000"
    using length_kept [OF assms(1)] by simp
  have "\<forall>k\<in>set ?ms. k \<le> 2 ^ 43"
    using assms(2) by (auto dest!: in_set_dropD simp: less_imp_le)
  then have "sum_list ?ms \<le> length ?ms * 2 ^ 43"
    by (rule sum_list_bound)
  also have "\<dots> \<le> 1000 * 2 ^ 43"
    using len by simp
  also have "\<dots> < (2::nat) ^ 53"
    by simp
  finally have "0 + sum_list ?ms < 2 ^ 53"
    by simp
  then have "foldl js_add (of_nat 0) (map of_nat ?ms) = (of_nat (0 + sum_list ?ms) :: rat)"
    by (rule foldl_js_add_whole)
  then have s: "foldl js_add 0 (map of_nat ?ms) = (of_nat (sum_list ?ms) :: rat)"
    by simp
  have ne: "map of_nat ns \<noteq> ([] :: rat list)"
    using assms(1) by simp
  show ?thesis
    by (simp add: stats_fold [OF ne] Let_def drop_map s js_div_def)
qed

lemma stats_identical:
  assumes "1 \<le> K"
  shows "processingTimeStats ((addProcessingTime d ^^ K) MetricsService_new)
           = \<lparr> samples = replicate (min K 1000) d, min_time = d, max_time = d,
               avg = js_div (foldl js_add 0 (replicate (min K 1000) d)) (of_nat (min K 1000)),
               p50 = Some d, p95 = Some d, p99 = Some d \<rparr>"
proof -
  let ?n = "min K 1000"
  have n: "1 \<le> ?n" "?n \<le> 1000" "0 < ?n"
    using assms by simp_all
  have ne: "replicate K d \<noteq> []"
    using assms by auto
  have d: "drop (length (replicate K d) - 1000) (replicate K d) = replicate ?n d"
    by (simp add: min_def)
  have p: "getPercentile (replicate ?n d) (to_double q) = Some d"
    if q: "q = 1 / 2 \<or> q = 95 / 100 \<or> q = 99 / 100" for q :: rat
  proof -
    have "0 < q" "q \<le> 1"
      using q by auto
    from nearest_rank_bounds [OF n(3) this]
    have "nat (\<lceil>of_nat ?n * q\<rceil> - 1) < ?n"
      by linarith
    then have "replicate ?n d ! nat (\<lceil>of_nat ?n * q\<rceil> - 1) = d"
      by (rule nth_replicate)
    moreover have "getPercentile (replicate ?n d) (to_double q)
            = Some (replicate ?n d ! nat (\<lceil>of_nat (length (replicate ?n d)) * q\<rceil> - 1))"
      by (rule getPercentile_reported) (use n q in simp_all)
    ultimately show ?thesis
      by simp
  qed
  have p50: "getPercentile (replicate ?n d) (to_double (1 / 2)) = Some d"
    by (rule p) simp
  have p95: "getPercentile (replicate ?n d) (to_double (95 / 100)) = Some d"
    by (rule p) simp
  have p99: "getPercentile (replicate ?n d) (to_double (99 / 100)) = Some d"
    by (rule p) simp
  have h: "hd (replicate ?n d) = d" and l: "last (replicate ?n d) = d"
    using n(3) by simp_all
  have f: "(addProcessingTime d ^^ K) MetricsService_new
          = fold addProcessingTime (replicate K d) MetricsService_new"
    by (simp add: fold_replicate)
  have "processingTimeStats (fold addProcessingTime (replicate K d) MetricsService_new)
          = \<lparr> samples = replicate ?n d,
               min_time = hd (sort (replicate ?n d)),
               max_time = last (sort (replicate ?n d)),
               avg = js_div (foldl js_add 0 (replicate ?n d)) (of_nat (length (replicate ?n d))),
               p50 = getPercentile (sort (replicate ?n d)) (to_double (1 / 2)),
               p95 = getPercentile (sort (replicate ?n d)) (to_double (95 / 100)),
               p99 = getPercentile (sort (replicate ?n d)) (to_double (99 / 100)) \<rparr>"
    unfolding stats_fold [OF ne] d Let_def ..
  then show ?thesis
    by (simp only: f sort_replicate h l p50 p95 p99 length_replicate)
qed

text \<open>
  Claim C8, as amended. The product \<open>n q\<close> is rounded to a double before the ceiling is
  taken. For a non-empty list \<open>xs\<close> of \<open>n\<close> samples and a quantile \<open>0 < q \<le> 1\<close> (the double
  passed), the percentile reported is the element at index \<open>\<lceil>to_double (n q)\<rceil> - 1\<close>, which
  is an index of the list; for the three quantiles the collector reports (the doubles
  nearest to 0.5, 0.95 and 0.99) and \<open>n \<le> 1000\<close>, the capacity of the reservoir, that index
  is the nearest rank \<open>\<lceil>n q\<rceil> - 1\<close> of the exact quantile. A quantile that is zero or negative
  reads the first element, and the empty list gives 0. After the samples \<open>ts\<close> have been
  inserted into a new collector, the reservoir holds the last 1000 of them in insertion
  order, \<open>min\<close> and \<open>max\<close> are its least and greatest element, \<open>avg\<close> is the rounded quotient
  of its left-to-right rounded sum by its length, and \<open>p50\<close>, \<open>p95\<close>, \<open>p99\<close> are the elements of
  the sorted reservoir at the nearest ranks; if the samples are whole numbers below \<open>2^43\<close>
  the sum is exact and \<open>avg\<close> is the exact mean rounded once. Hence after \<open>K \<ge> 1\<close> samples all
  equal to \<open>d\<close>: \<open>p50 = p95 = p99 = min = max = d\<close>, and \<open>avg = d\<close> when \<open>d\<close> is a whole number
  below \<open>2^43\<close>.
\<close>

theorem percentiles_of_the_reservoir:
  "getPercentile [] q = Some 0
   \<and> (xs \<noteq> [] \<and> length xs < 2 ^ 53 \<and> 0 < q \<and> q \<le> 1 \<longrightarrow>
        0 \<le> \<lceil>to_double (of_nat (length xs) * q)\<rceil> - 1
        \<and> \<lceil>to_double (of_nat (length xs) * q)\<rceil> - 1 < int (length xs)
        \<and> getPercentile xs q
            = Some (xs ! nat (\<lceil>to_double (of_nat (length xs) * q)\<rceil> - 1)))
   \<and> (1 \<le> length xs \<and> length xs \<le> 1000 \<and> (q = 1 / 2 \<or> q = 95 / 100 \<or> q = 99 / 100) \<longrightarrow>
        0 \<le> \<lceil>of_nat (length xs) * q\<rceil> - 1
        \<and> \<lceil>of_nat (length xs) * q\<rceil> - 1 < int (length xs)
        \<and> getPercentile xs (to_double q) = Some (xs ! nat (\<lceil>of_nat (length xs) * q\<rceil> - 1)))
   \<and> (xs \<noteq> [] \<and> q \<le> 0 \<longrightarrow> getPercentile xs q = Some (hd xs))
   \<and> (ts \<noteq> [] \<longrightarrow>
        (let pts = processingTimeStats (fold addProcessingTime ts MetricsService_new);
             kept = drop (length ts - 1000) ts;
             sorted = sort kept;
             n = length kept
         in samples pts = kept \<and> 1 \<le> n \<and> n \<le> 1000
            \<and> min_time pts = Min (set kept) \<and> max_time pts = Max (set kept)
            \<and> avg pts = js_div (foldl js_add 0 kept) (of_nat n)
            \<and> p50 pts = Some (sorted ! nat (\<lceil>of_nat n * (1 / 2 :: rat)\<rceil> - 1))
            \<and> p95 pts = Some (sorted ! nat (\<lceil>of_nat n * (95 / 100 :: rat)\<rceil> - 1))
            \<and> p99 pts = Some (sorted ! nat (\<lceil>of_nat n * (99 / 100 :: rat)\<rceil> - 1))))
   \<and> (ns \<noteq> [] \<and> (\<forall>k\<in>set ns. k < 2 ^ 43) \<longrightarrow>
        avg (processingTimeStats (fold addProcessingTime (map of_nat ns) MetricsService_new))
          = to_double (of_nat (sum_list (drop (length ns - 1000) ns))
                         / of_nat (length (drop (length ns - 1000) ns))))
   \<and> (1 \<le> K \<longrightarrow>
        (let pts = processingTimeStats ((addProcessingTime d ^^ K) MetricsService_new)
         in p50 pts = Some d \<and> p95 pts = Some d \<and> p99 pts = Some d
            \<and> min_time pts = d \<and> max_time pts = d))
   \<and> (1 \<le> K \<and> k < 2 ^ 43 \<longrightarrow>
        avg (processingTimeStats ((addProcessingTime (of_nat k) ^^ K) MetricsService_new))
          = of_nat k)"
proof (intro conjI impI)
  show "getPercentile [] q = Some 0"
    by (simp add: getPercentile_def)
next
  assume a: "xs \<noteq> [] \<and> length xs < 2 ^ 53 \<and> 0 < q \<and> q \<le> 1"
  then have h: "xs \<noteq> []" "length xs < 2 ^ 53" "0 < q" "q \<le> 1"
    by simp_all
  show "0 \<le> \<lceil>to_double (of_nat (length xs) * q)\<rceil> - 1"
    by (rule getPercentile_rounded_rank(1) [OF h])
  show "\<lceil>to_double (of_nat (length xs) * q)\<rceil> - 1 < int (length xs)"
    by (rule getPercentile_rounded_rank(2) [OF h])
  show "getPercentile xs q
            = Some (xs ! nat (\<lceil>to_double (of_nat (length xs) * q)\<rceil> - 1))"
    by (rule getPercentile_rounded_rank(3) [OF h])
next
  assume a: "1 \<le> length xs \<and> length xs \<le> 1000 \<and> (q = 1 / 2 \<or> q = 95 / 100 \<or> q = 99 / 100)"
  then have n: "0 < length xs" and q: "0 < q" "q \<le> 1"
    by auto
  show "0 \<le> \<lceil>of_nat (length xs) * q\<rceil> - 1" and "\<lceil>of_nat (length xs) * q\<rceil> - 1 < int (length xs)"
    using nearest_rank_bounds [OF n q] by simp_all
  show "getPercentile xs (to_double q) = Some (xs ! nat (\<lceil>of_nat (length xs) * q\<rceil> - 1))"
    using a by (intro getPercentile_reported) simp_all
next
  assume "xs \<noteq> [] \<and> q \<le> 0"
  then show "getPercentile xs q = Some (hd xs)"
    by (simp add: getPercentile_clamps_at_zero)
next
  assume ne: "ts \<noteq> []"
  let ?kept = "drop (length ts - 1000) ts"
  have len: "1 \<le> length ?kept" "length ?kept \<le> 1000"
    using length_kept [OF ne] by simp_all
  then have kne: "?kept \<noteq> []"
    by auto
  have slen: "1 \<le> length (sort ?kept)" "length (sort ?kept) \<le> 1000"
    using len by simp_all
  have p: "getPercentile (sort ?kept) (to_double q)
             = Some (sort ?kept ! nat (\<lceil>of_nat (length ?kept) * q\<rceil> - 1))"
    if "q = 1 / 2 \<or> q = 95 / 100 \<or> q = 99 / 100" for q :: rat
    using getPercentile_reported [OF slen that] by simp
  show "let pts = processingTimeStats (fold addProcessingTime ts MetricsService_new);
             kept = drop (length ts - 1000) ts;
             sorted = sort kept;
             n = length kept
         in samples pts = kept \<and> 1 \<le> n \<and> n \<le> 1000
            \<and> min_time pts = Min (set kept) \<and> max_time pts = Max (set kept)
            \<and> avg pts = js_div (foldl js_add 0 kept) (of_nat n)
            \<and> p50 pts = Some (sorted ! nat (\<lceil>of_nat n * (1 / 2 :: rat)\<rceil> - 1))
            \<and> p95 pts = Some (sorted ! nat (\<lceil>of_nat n * (95 / 100 :: rat)\<rceil> - 1))
            \<and> p99 pts = Some (sorted ! nat (\<lceil>of_nat n * (99 / 100 :: rat)\<rceil> - 1))"
  proof -
    have p50: "getPercentile (sort ?kept) (to_double (1 / 2))
             = Some (sort ?kept ! nat (\<lceil>of_nat (length ?kept) * (1 / 2 :: rat)\<rceil> - 1))"
      by (rule p) simp
    have p95: "getPercentile (sort ?kept) (to_double (95 / 100))
             = Some (sort ?kept ! nat (\<lceil>of_nat (length ?kept) * (95 / 100 :: rat)\<rceil> - 1))"
      by (rule p) simp
    have p99: "getPercentile (sort ?kept) (to_double (99 / 100))
             = Some (sort ?kept ! nat (\<lceil>of_nat (length ?kept) * (99 / 100 :: rat)\<rceil> - 1))"
      by (rule p) simp
    show ?thesis
      unfolding stats_fold [OF ne] Let_def hd_sort_Min [OF kne] last_sort_Max [OF kne] p50 p95 p99
      using len by (simp only: processing_time_stats.simps)
  qed
next
  assume "ns \<noteq> [] \<and> (\<forall>k\<in>set ns. k < 2 ^ 43)"
  then show "avg (processingTimeStats (fold addProcessingTime (map of_nat ns) MetricsService_new))
          = to_double (of_nat (sum_list (drop (length ns - 1000) ns))
                         / of_nat (length (drop (length ns - 1000) ns)))"
    by (intro avg_of_whole_samples) simp_all
next
  assume "1 \<le> K"
  then show "let pts = processingTimeStats ((addProcessingTime d ^^ K) MetricsService_new)
         in p50 pts = Some d \<and> p95 pts = Some d \<and> p99 pts = Some d
            \<and> min_time pts = d \<and> max_time pts = d"
    by (simp add: stats_identical Let_def)
next
  assume a: "1 \<le> K \<and> k < 2 ^ 43"
  let ?n = "min K 1000"
  have n: "0 < ?n" "?n \<le> 1000"
    using a by simp_all
  have ne: "replicate K k \<noteq> []"
    using a by auto
  have b: "\<forall>j\<in>set (replicate K k). j < 2 ^ 43"
    using a by simp
  have k53: "k < 2 ^ 53"
  proof -
    have "(2::nat) ^ 43 \<le> 2 ^ 53"
      by simp
    with a show ?thesis
      by linarith
  qed
  have "(addProcessingTime (of_nat k) ^^ K) MetricsService_new
          = fold addProcessingTime (map of_nat (replicate K k)) MetricsService_new"
    by (simp add: fold_replicate)
  then have "avg (processingTimeStats ((addProcessingTime (of_nat k) ^^ K) MetricsService_new))
          = to_double (of_nat (sum_list (drop (length (replicate K k) - 1000) (replicate K k)))
                         / of_nat (length (drop (length (replicate K k) - 1000) (replicate K k))))"
    using avg_of_whole_samples [OF ne b] by (simp only:)
  also have "drop (length (replicate K k) - 1000) (replicate K k) = replicate ?n k"
    by (simp add: min_def)
  also have "(of_nat (sum_list (replicate ?n k)) :: rat) / of_nat (length (replicate ?n k)) = of_nat k"
    using n(1) by (simp add: sum_list_replicate)
  also have "to_double (of_nat k) = of_nat k"
    using k53 by (rule to_double_of_nat)
  finally show "avg (processingTimeStats ((addProcessingTime (of_nat k) ^^ K) MetricsService_new))
          = of_nat k" .
qed

theorem percentiles_of_the_reservoir_witness:
  "(1 \<le> length [10, 20, 30, 40 :: rat] \<and> length [10, 20, 30, 40 :: rat] \<le> 1000
      \<and> getPercentile [10, 20, 30, 40] (to_double (95 / 100)) = Some 40)
   \<and> ([10, 20, 30, 40 :: rat] \<noteq> [] \<and> 0 < to_double (7 / 10) \<and> to_double (7 / 10) \<le> 1
      \<and> getPercentile [10, 20, 30, 40] (to_double (7 / 10)) = Some 30)
   \<and> ([10, 20 :: rat] \<noteq> [] \<and> (- 1 :: rat) \<le> 0 \<and> getPercentile [10, 20] (- 1) = Some 10)
   \<and> ([300, 100, 500, 200, 400 :: rat] \<noteq> []
      \<and> (let pts = processingTimeStats
                     (fold addProcessingTime [300, 100, 500, 200, 400] MetricsService_new)
         in samples pts = [300, 100, 500, 200, 400]
            \<and> min_time pts = 100 \<and> max_time pts = 500 \<and> avg pts = 300
            \<and> p50 pts = Some 300 \<and> p95 pts = Some 500 \<and> p99 pts = Some 500))
   \<and> ((1::nat) \<le> 3 \<and> (250::nat) < 2 ^ 43
      \<and> (let pts = processingTimeStats ((addProcessingTime 250 ^^ 3) MetricsService_new)
         in p50 pts = Some 250 \<and> p95 pts = Some 250 \<and> p99 pts = Some 250
            \<and> min_time pts = 250 \<and> max_time pts = 250 \<and> avg pts = 250))"
proof -
  let ?ts = "[300, 100, 500, 200, 400] :: rat list"
  let ?ns = "[300, 100, 500, 200, 400] :: nat list"
  have h1: "1 \<le> length [10, 20, 30, 40 :: rat] \<and> length [10, 20, 30, 40 :: rat] \<le> 1000
              \<and> ((95 / 100 :: rat) = 1 / 2 \<or> (95 / 100 :: rat) = 95 / 100 \<or> (95 / 100 :: rat) = 99 / 100)"
    by simp
  have i1: "[10, 20, 30, 40 :: rat]
              ! nat (\<lceil>of_nat (length [10, 20, 30, 40 :: rat]) * (95 / 100 :: rat)\<rceil> - 1) = 40"
    by code_simp
  have c1: "getPercentile [10, 20, 30, 40] (to_double (95 / 100)) = Some 40"
    using percentiles_of_the_reservoir
            [where xs = "[10, 20, 30, 40]" and q = "95 / 100",
             THEN conjunct2, THEN conjunct2, THEN conjunct1, rule_format, OF h1]
    by (simp only: i1)
  have q0: "0 < to_double (7 / 10)" "to_double (7 / 10) \<le> 1"
    by code_simp+
  have h0: "[10, 20, 30, 40 :: rat] \<noteq> [] \<and> length [10, 20, 30, 40 :: rat] < 2 ^ 53
              \<and> 0 < to_double (7 / 10) \<and> to_double (7 / 10) \<le> 1"
    using q0 by simp
  have i0: "[10, 20, 30, 40 :: rat]
              ! nat (\<lceil>to_double (of_nat (length [10, 20, 30, 40 :: rat]) * to_double (7 / 10))\<rceil> - 1)
            = 30"
    by code_simp
  have c0: "getPercentile [10, 20, 30, 40] (to_double (7 / 10)) = Some 30"
    using percentiles_of_the_reservoir
            [where xs = "[10, 20, 30, 40]" and q = "to_double (7 / 10)",
             THEN conjunct2, THEN conjunct1, rule_format, OF h0]
    by (simp only: i0)
  have h2: "[10, 20 :: rat] \<noteq> [] \<and> (- 1 :: rat) \<le> 0"
    by simp
  have c2: "getPercentile [10, 20] (- 1) = Some 10"
    using percentiles_of_the_reservoir
            [where xs = "[10, 20]" and q = "- 1",
             THEN conjunct2, THEN conjunct2, THEN conjunct2, THEN conjunct1, rule_format, OF h2]
    by simp
  have h3: "?ts \<noteq> []"
    by simp
  have kept: "drop (length ?ts - 1000) ?ts = ?ts"
    by simp
  have i3: "Min (set ?ts) = 100" "Max (set ?ts) = 500"
    "sort ?ts ! nat (\<lceil>of_nat (length ?ts) * (1 / 2 :: rat)\<rceil> - 1) = 300"
    "sort ?ts ! nat (\<lceil>of_nat (length ?ts) * (95 / 100 :: rat)\<rceil> - 1) = 500"
    "sort ?ts ! nat (\<lceil>of_nat (length ?ts) * (99 / 100 :: rat)\<rceil> - 1) = 500"
    by code_simp+
  have c3: "let pts = processingTimeStats (fold addProcessingTime ?ts MetricsService_new)
            in samples pts = ?ts \<and> min_time pts = 100 \<and> max_time pts = 500
               \<and> p50 pts = Some 300 \<and> p95 pts = Some 500 \<and> p99 pts = Some 500"
    using percentiles_of_the_reservoir
            [where ts = ?ts,
             THEN conjunct2, THEN conjunct2, THEN conjunct2, THEN conjunct2, THEN conjunct1,
             rule_format, OF h3]
    by (simp only: Let_def kept i3)
  have h4: "?ns \<noteq> [] \<and> (\<forall>k\<in>set ?ns. k < 2 ^ 43)"
    by simp
  have m4: "map of_nat ?ns = ?ts"
    by simp
  have "to_double 300 = 300"
    by code_simp
  then have i4: "to_double (of_nat (sum_list (drop (length ?ns - 1000) ?ns))
                         / of_nat (length (drop (length ?ns - 1000) ?ns))) = 300"
    by simp
  have c4: "avg (processingTimeStats (fold addProcessingTime ?ts MetricsService_new)) = 300"
    using percentiles_of_the_reservoir
            [where ns = ?ns,
             THEN conjunct2, THEN conjunct2, THEN conjunct2, THEN conjunct2, THEN conjunct2,
             THEN conjunct1, rule_format, OF h4]
    by (simp only: m4 i4)
  have h5: "(1::nat) \<le> 3"
    by simp
  have c5: "let pts = processingTimeStats ((addProcessingTime 250 ^^ 3) MetricsService_new)
         in p50 pts = Some 250 \<and> p95 pts = Some 250 \<and> p99 pts = Some 250
            \<and> min_time pts = 250 \<and> max_time pts = 250"
    by (rule percentiles_of_the_reservoir
            [where K = 3 and d = 250,
             THEN conjunct2, THEN conjunct2, THEN conjunct2, THEN conjunct2, THEN conjunct2,
             THEN conjunct2, THEN conjunct1, rule_format, OF h5])
  have h6: "(1::nat) \<le> 3 \<and> (250::nat) < 2 ^ 43"
    by simp
  have c6: "avg (processingTimeStats ((addProcessingTime 250 ^^ 3) MetricsService_new)) = 250"
    using percentiles_of_the_reservoir
            [where K = 3 and k = 250,
             THEN conjunct2, THEN conjunct2, THEN conjunct2, THEN conjunct2, THEN conjunct2,
             THEN conjunct2, THEN conjunct2, rule_format, OF h6]
    by simp
  show ?thesis
    using c0 c1 c2 c3 c4 c5 c6 q0 by (simp add: Let_def)
qed

text \<open>
  The claim as stated fails in both halves. With 100 samples and the quantile written
  0.07, the product \<open>100 * 0.07\<close> is the double just above 7 and the element read is at
  index 7, not at the nearest rank 6. With 10 samples and the quantile written 0.1 (a
  double slightly above one tenth) the rounded product is exactly 1 and the element read
  is at index 0, while the nearest rank of that double is 1. And three samples equal to
  the double 0.1 have the mean \<open>0.1 + 2^-56\<close>: the percentiles are the sample, the mean is
  not.
\<close>

theorem percentile_rank_and_mean_are_rounded:
  "getPercentile (map of_int [0..99]) (to_double (7 / 100)) = Some 7
   \<and> map of_int [0..99]
       ! nat (\<lceil>of_nat (length (map of_int [0..99] :: rat list)) * (7 / 100 :: rat)\<rceil> - 1) = (6::rat)
   \<and> getPercentile (map of_int [0..9]) (to_double (1 / 10)) = Some 0
   \<and> map of_int [0..9]
       ! nat (\<lceil>of_nat (length (map of_int [0..9] :: rat list)) * to_double (1 / 10)\<rceil> - 1) = (1::rat)
   \<and> (let pts = processingTimeStats
                  ((addProcessingTime (to_double (1 / 10)) ^^ 3) MetricsService_new)
      in samples pts = [to_double (1 / 10), to_double (1 / 10), to_double (1 / 10)]
         \<and> p50 pts = Some (to_double (1 / 10))
         \<and> avg pts = to_double (1 / 10) + 1 / 2 ^ 56
         \<and> avg pts \<noteq> to_double (1 / 10))"
proof -
  have a: "getPercentile (map of_int [0..99]) (to_double (7 / 100)) = Some 7"
    by code_simp
  have b: "map of_int [0..99]
       ! nat (\<lceil>of_nat (length (map of_int [0..99] :: rat list)) * (7 / 100 :: rat)\<rceil> - 1) = (6::rat)"
    by code_simp
  have c: "getPercentile (map of_int [0..9]) (to_double (1 / 10)) = Some 0"
    by code_simp
  have d: "map of_int [0..9]
       ! nat (\<lceil>of_nat (length (map of_int [0..9] :: rat list)) * to_double (1 / 10)\<rceil> - 1) = (1::rat)"
    by code_simp
  have e: "js_div (foldl js_add 0 [to_double (1 / 10), to_double (1 / 10), to_double (1 / 10)])
                (of_nat (min 3 1000))
             = to_double (1 / 10) + 1 / 2 ^ 56"
    by code_simp
  have f: "replicate (min 3 1000) x = [x, x, x]" for x :: rat
    by (simp add: numeral_3_eq_3)
  have "(1::nat) \<le> 3"
    by simp
  from stats_identical [OF this, where d = "to_double (1 / 10)"]
  have "processingTimeStats ((addProcessingTime (to_double (1 / 10)) ^^ 3) MetricsService_new)
          = \<lparr> samples = [to_double (1 / 10), to_double (1 / 10), to_double (1 / 10)],
              min_time = to_double (1 / 10), max_time = to_double (1 / 10),
              avg = to_double (1 / 10) + 1 / 2 ^ 56,
              p50 = Some (to_double (1 / 10)), p95 = Some (to_double (1 / 10)),
              p99 = Some (to_double (1 / 10)) \<rparr>"
    by (simp only: e f)
  then have g: "let pts = processingTimeStats
                  ((addProcessingTime (to_double (1 / 10)) ^^ 3) MetricsService_new)
      in samples pts = [to_double (1 / 10), to_double (1 / 10), to_double (1 / 10)]
         \<and> p50 pts = Some (to_double (1 / 10))
         \<and> avg pts = to_double (1 / 10) + 1 / 2 ^ 56
         \<and> avg pts \<noteq> to_double (1 / 10)"
    by (simp add: Let_def)
  from a b c d g show ?thesis
    by (intro conjI)
qed

end
